theory Spec2Isabelle
  imports Complex_Main "HOL-Library.Sublist" "HOL-Library.AList" "HOL-Library.Product_Lexorder"
begin

section \<open>Provider names, messages, results and errors (core/llm\_client.py)\<close>

datatype ProviderName = GROQ | GEMINI | OPENAI | ANTHROPIC

text \<open>The \<open>.value\<close> of the string enum.\<close>

fun provider_value :: "ProviderName \<Rightarrow> string" where
  "provider_value GROQ = ''groq''"
| "provider_value GEMINI = ''gemini''"
| "provider_value OPENAI = ''openai''"
| "provider_value ANTHROPIC = ''anthropic''"

record Message =
  role :: string
  content :: string

text \<open>
  A naive \<open>datetime\<close>: (year, month, day, hour, minute, second, microsecond). Python
  compares naive datetimes field by field in this order, which is the lexicographic
  order on the tuple.
\<close>

type_synonym datetime = "nat \<times> nat \<times> nat \<times> nat \<times> nat \<times> nat \<times> nat"

fun valid_datetime :: "datetime \<Rightarrow> bool" where
  "valid_datetime (y, mo, d, h, mi, s, us) =
    (1 \<le> y \<and> y \<le> 9999 \<and> 1 \<le> mo \<and> mo \<le> 12 \<and> 1 \<le> d \<and> d \<le> 31
     \<and> h < 24 \<and> mi < 60 \<and> s < 60 \<and> us < 1000000)"

text \<open>
  Python floats are modelled as rationals. The fields of \<open>CompletionResult\<close> that share
  their name with a field of another class carry the prefix \<open>res_\<close>, and the
  \<open>provider\<close> of \<open>ProviderError\<close> is \<open>err_provider\<close>.
\<close>

record CompletionResult =
  res_content :: string
  res_provider :: ProviderName
  res_model :: string
  input_tokens :: int
  output_tokens :: int
  res_latency_ms :: rat
  cost_usd :: rat
  res_timestamp :: datetime

record ProviderError =
  err_provider :: ProviderName
  message :: string
  status_code :: "int option"
  retryable :: bool

text \<open>\<open>ProviderError.__str__\<close>: \<open>f"{self.provider.value}: {self.message}"\<close>.\<close>

definition str_ProviderError :: "ProviderError \<Rightarrow> string" where
  "str_ProviderError e = provider_value (err_provider e) @ '': '' @ message e"

section \<open>Cost estimation (core/providers/groq.py)\<close>

text \<open>
  The arithmetic of the source is in floats. \<open>fl\<close>, a parameter of the model, rounds an
  exact value to the float that stands for it (the identity gives exact arithmetic).
  Prices are in USD per million tokens, the pair is (input rate, output rate); a decimal
  literal of the table denotes the float nearest to it. The default rate 0.50 is a float
  as it stands.
\<close>

definition GROQ_PRICING :: "(rat \<Rightarrow> rat) \<Rightarrow> (string \<times> (rat \<times> rat)) list" where
  "GROQ_PRICING fl =
    [(''llama-3.3-70b-versatile'', (fl (59 / 100), fl (79 / 100))),
     (''llama-3.1-70b-versatile'', (fl (59 / 100), fl (79 / 100))),
     (''llama-3.1-8b-instant'', (fl (5 / 100), fl (8 / 100))),
     (''mixtral-8x7b-32768'', (fl (24 / 100), fl (24 / 100))),
     (''gemma2-9b-it'', (fl (20 / 100), fl (20 / 100)))]"

definition DEFAULT_PRICING :: "rat \<times> rat" where
  "DEFAULT_PRICING = (50 / 100, 50 / 100)"

text \<open>\<open>GROQ_PRICING.get(self.model, DEFAULT_PRICING)\<close>.\<close>

definition pricing_of :: "(rat \<Rightarrow> rat) \<Rightarrow> string \<Rightarrow> rat \<times> rat" where
  "pricing_of fl m =
    (case map_of (GROQ_PRICING fl) m of None \<Rightarrow> DEFAULT_PRICING | Some p \<Rightarrow> p)"

text \<open>
  \<open>GroqClient.estimate_cost\<close>. The token counts are Python integers; every arithmetic
  operation of the source yields a float, so each exact result passes through \<open>fl\<close>.
\<close>

definition estimate_cost :: "(rat \<Rightarrow> rat) \<Rightarrow> string \<Rightarrow> int \<Rightarrow> int \<Rightarrow> rat" where
  "estimate_cost fl m inp outp =
    (let pricing = pricing_of fl m;
         input_cost = fl (fl (of_int inp / 1000000) * fst pricing);
         output_cost = fl (fl (of_int outp / 1000000) * snd pricing)
     in fl (input_cost + output_cost))"

section \<open>The fallback chain (core/fallback.py)\<close>

record FallbackAttempt =
  provider :: ProviderName
  success :: bool
  error :: "string option"
  latency_ms :: rat
  timestamp :: datetime

record FallbackResult =
  result :: CompletionResult
  attempts :: "FallbackAttempt list"

definition fallback_used :: "FallbackResult \<Rightarrow> bool" where
  "fallback_used r = (length (attempts r) > 1)"

text \<open>What awaiting \<open>provider.complete(...)\<close> does: it returns, raises a
  \<open>ProviderError\<close>, or raises some other exception (which the chain does not catch).\<close>

datatype outcome =
    Returns CompletionResult
  | Raises_ProviderError ProviderError
  | Raises_other string

text \<open>
  One entry of \<open>self.providers\<close>: the identity of the client object (\<open>ref\<close>; the
  source compares clients with \<open>==\<close>, which no client class overrides), its
  \<open>name\<close>, and what this invocation of its \<open>complete\<close> does: the outcome, the
  seconds measured by \<open>perf_counter\<close> around the call and the \<open>utcnow\<close> stamped
  on the attempt record.
\<close>

record LLMClient =
  ref :: nat
  name :: ProviderName
  outcome :: outcome
  elapsed :: rat
  utcnow :: datetime

record FallbackChain =
  providers :: "LLMClient list"
  on_fallback :: bool

text \<open>What a call leaves behind besides its result: the clients invoked, in order, and
  the attempts handed to the \<open>on_fallback\<close> callback (\<open>on_fallback\<close> says whether one
  is set; the callback and the logger are taken to return normally).\<close>

record trace =
  invoked :: "nat list"
  notified :: "FallbackAttempt list"

datatype error =
    AllProvidersFailedError "FallbackAttempt list"
  | Unhandled string

text \<open>\<open>'; '.join(errors)\<close>.\<close>

fun join :: "string \<Rightarrow> string list \<Rightarrow> string" where
  "join sep [] = []"
| "join sep [x] = x"
| "join sep (x # y # ys) = x @ sep @ join sep (y # ys)"

text \<open>The text of \<open>AllProvidersFailedError\<close>; an attempt whose \<open>error\<close> is
  \<open>None\<close> or empty is left out (\<open>if a.error\<close>).\<close>

definition error_lines :: "FallbackAttempt list \<Rightarrow> string list" where
  "error_lines atts =
    map (\<lambda>a. provider_value (provider a) @ '': '' @ the (error a))
      (filter (\<lambda>a. error a \<noteq> None \<and> error a \<noteq> Some []) atts)"

definition error_text :: "FallbackAttempt list \<Rightarrow> string" where
  "error_text atts = ''All providers failed: '' @ join ''; '' (error_lines atts)"

definition success_attempt :: "LLMClient \<Rightarrow> FallbackAttempt" where
  "success_attempt p =
    \<lparr>provider = name p, success = True, error = None,
     latency_ms = elapsed p * 1000, timestamp = utcnow p\<rparr>"

definition failure_attempt :: "LLMClient \<Rightarrow> ProviderError \<Rightarrow> FallbackAttempt" where
  "failure_attempt p e =
    \<lparr>provider = name p, success = False, error = Some (str_ProviderError e),
     latency_ms = elapsed p * 1000, timestamp = utcnow p\<rparr>"

text \<open>The \<open>for provider in self.providers\<close> loop of \<open>FallbackChain.complete\<close>, on
  the providers still to try.\<close>

fun complete_loop ::
  "FallbackChain \<Rightarrow> LLMClient list \<Rightarrow> FallbackAttempt list \<Rightarrow> trace
    \<Rightarrow> (error + FallbackResult) \<times> trace" where
  "complete_loop ch [] atts tr = (Inl (AllProvidersFailedError atts), tr)"
| "complete_loop ch (p # rest) atts tr =
    (let tr1 = tr\<lparr>invoked := invoked tr @ [ref p]\<rparr> in
     case outcome p of
       Returns r \<Rightarrow>
         (Inr \<lparr>result = r, attempts = atts @ [success_attempt p]\<rparr>, tr1)
     | Raises_ProviderError e \<Rightarrow>
         (let attempt = failure_attempt p e;
              atts1 = atts @ [attempt];
              tr2 = (if on_fallback ch then tr1\<lparr>notified := notified tr1 @ [attempt]\<rparr>
                     else tr1)
          in if \<not> retryable e \<and> ref p = ref (last (providers ch))
             then (Inl (AllProvidersFailedError atts1), tr2)
             else complete_loop ch rest atts1 tr2)
     | Raises_other x \<Rightarrow> (Inl (Unhandled x), tr1))"

definition empty_trace :: trace where
  "empty_trace = \<lparr>invoked = [], notified = []\<rparr>"

definition complete :: "FallbackChain \<Rightarrow> (error + FallbackResult) \<times> trace" where
  "complete ch = complete_loop ch (providers ch) [] empty_trace"

subsection \<open>Vocabulary for stating properties of the chain\<close>

text \<open>The backend's \<open>complete\<close> raised a \<open>ProviderError\<close>.\<close>

definition classified_failure :: "LLMClient \<Rightarrow> bool" where
  "classified_failure p = (case outcome p of Raises_ProviderError e \<Rightarrow> True | _ \<Rightarrow> False)"

text \<open>The fail-fast test of the loop holds at this backend: its error is not retryable
  and the client equals the last one of the list.\<close>

definition hard_stop :: "FallbackChain \<Rightarrow> LLMClient \<Rightarrow> bool" where
  "hard_stop ch p =
    (case outcome p of
       Raises_ProviderError e \<Rightarrow> \<not> retryable e \<and> ref p = ref (last (providers ch))
     | _ \<Rightarrow> False)"

text \<open>The failure records of the backends that raised a \<open>ProviderError\<close>, in order.\<close>

definition failure_records :: "LLMClient list \<Rightarrow> FallbackAttempt list" where
  "failure_records ps =
    List.map_filter
      (\<lambda>p. case outcome p of Raises_ProviderError e \<Rightarrow> Some (failure_attempt p e) | _ \<Rightarrow> None) ps"

subsection \<open>A chain that lists one client object twice\<close>

text \<open>
  \<open>FallbackChain(providers=[groq, gemini, groq])\<close>: the same Groq client is listed again
  after Gemini. Groq rejects the request (status 400, not retryable).
\<close>

definition bad_request :: ProviderError where
  "bad_request =
    \<lparr>err_provider = GROQ, message = ''invalid request'', status_code = Some 400,
     retryable = False\<rparr>"

definition rate_limited :: ProviderError where
  "rate_limited =
    \<lparr>err_provider = GEMINI, message = ''Rate limit exceeded'', status_code = Some 429,
     retryable = True\<rparr>"

definition answer :: CompletionResult where
  "answer =
    \<lparr>res_content = ''Hello'', res_provider = GEMINI, res_model = ''gemini-1.5-flash'',
     input_tokens = 10, output_tokens = 5, res_latency_ms = 100, cost_usd = 0,
     res_timestamp = (2025, 1, 1, 9, 0, 1, 0)\<rparr>"

definition groq_client :: LLMClient where
  "groq_client =
    \<lparr>ref = 1, name = GROQ, outcome = Raises_ProviderError bad_request,
     elapsed = 1 / 10, utcnow = (2025, 1, 1, 9, 0, 0, 0)\<rparr>"

definition gemini_ok :: LLMClient where
  "gemini_ok =
    \<lparr>ref = 2, name = GEMINI, outcome = Returns answer, elapsed = 1 / 10,
     utcnow = (2025, 1, 1, 9, 0, 1, 0)\<rparr>"

definition gemini_limited :: LLMClient where
  "gemini_limited =
    \<lparr>ref = 2, name = GEMINI, outcome = Raises_ProviderError rate_limited,
     elapsed = 1 / 10, utcnow = (2025, 1, 1, 9, 0, 1, 0)\<rparr>"

section \<open>Sessions and their stores (storage/session.py)\<close>

datatype ProductType =
  CHATBOT | WRITING_HELPER | CODE_REVIEWER | SUPPORT_BOT | CONTENT_SUMMARIZER

fun product_value :: "ProductType \<Rightarrow> string" where
  "product_value CHATBOT = ''chatbot''"
| "product_value WRITING_HELPER = ''writing_helper''"
| "product_value CODE_REVIEWER = ''code_reviewer''"
| "product_value SUPPORT_BOT = ''support_bot''"
| "product_value CONTENT_SUMMARIZER = ''content_summarizer''"

text \<open>\<open>ProductType(value)\<close>, which raises \<open>ValueError\<close> on any other string.\<close>

definition ProductType_of :: "string \<Rightarrow> ProductType option" where
  "ProductType_of v =
    (if v = ''chatbot'' then Some CHATBOT
     else if v = ''writing_helper'' then Some WRITING_HELPER
     else if v = ''code_reviewer'' then Some CODE_REVIEWER
     else if v = ''support_bot'' then Some SUPPORT_BOT
     else if v = ''content_summarizer'' then Some CONTENT_SUMMARIZER
     else None)"

text \<open>
  The values a \<open>metadata\<close> dict can hold: the types \<open>json\<close> knows, tuples, and objects
  it cannot serialise (\<open>PObject\<close>, told apart by identity). A dict is an association
  list in insertion order.
\<close>

datatype pyval =
    PNone
  | PBool bool
  | PInt int
  | PStr string
  | PList "pyval list"
  | PTuple "pyval list"
  | PDict "(pyval \<times> pyval) list"
  | PObject nat

record Session =
  session_id :: string
  product :: ProductType
  messages :: "Message list"
  created_at :: datetime
  updated_at :: datetime
  metadata :: "(pyval \<times> pyval) list"

definition message_count :: "Session \<Rightarrow> nat" where
  "message_count s = length (messages s)"

text \<open>\<open>Session.add_message\<close>; \<open>now\<close> is what \<open>datetime.utcnow()\<close> returns.\<close>

definition add_message :: "datetime \<Rightarrow> Session \<Rightarrow> Message \<Rightarrow> Session" where
  "add_message now s m = s\<lparr>messages := messages s @ [m], updated_at := now\<rparr>"

datatype store_error = ValueError | TypeError | KeyError | ResponseError

subsection \<open>InMemorySessionStorage\<close>

text \<open>
  \<open>_sessions\<close> is a Python dict: an association list with distinct keys in insertion
  order. Assigning to a present key keeps its position, assigning to a new key appends
  (\<open>AList.update\<close>); \<open>del\<close> removes the entry (\<open>AList.delete\<close>). A stored session is
  the state of the stored object at the time of the call.
\<close>

record InMemorySessionStorage =
  sessions :: "(string \<times> Session) list"
  max_sessions :: int

definition new_InMemorySessionStorage :: "int \<Rightarrow> InMemorySessionStorage" where
  "new_InMemorySessionStorage n = \<lparr>sessions = [], max_sessions = n\<rparr>"

text \<open>\<open>f"{product.value}:{session_id}"\<close>.\<close>

definition make_key :: "string \<Rightarrow> ProductType \<Rightarrow> string" where
  "make_key sid p = product_value p @ '':'' @ sid"

definition get :: "InMemorySessionStorage \<Rightarrow> string \<Rightarrow> ProductType \<Rightarrow> Session option" where
  "get st sid p = map_of (sessions st) (make_key sid p)"

text \<open>Python's \<open>min(xs, key=f)\<close> on a non-empty sequence: the first element whose key
  is minimal; \<open>None\<close> stands for the \<open>ValueError\<close> on an empty one.\<close>

fun min_by :: "('a \<Rightarrow> 'b::linorder) \<Rightarrow> 'a list \<Rightarrow> 'a option" where
  "min_by f [] = None"
| "min_by f (x # xs) =
    (case min_by f xs of
       None \<Rightarrow> Some x
     | Some y \<Rightarrow> if f y < f x then Some y else Some x)"

definition save :: "InMemorySessionStorage \<Rightarrow> Session \<Rightarrow> store_error + InMemorySessionStorage" where
  "save st s =
    (let key = make_key (session_id s) (product s) in
     if key \<notin> fst ` set (sessions st) \<and> max_sessions st \<le> int (length (sessions st))
     then (case min_by (\<lambda>(k, v). updated_at v) (sessions st) of
             None \<Rightarrow> Inl ValueError
           | Some (oldest_key, v) \<Rightarrow>
               Inr (st\<lparr>sessions :=
                      AList.update key s (AList.delete oldest_key (sessions st))\<rparr>))
     else Inr (st\<lparr>sessions := AList.update key s (sessions st)\<rparr>))"

definition delete :: "InMemorySessionStorage \<Rightarrow> string \<Rightarrow> ProductType \<Rightarrow> InMemorySessionStorage \<times> bool" where
  "delete st sid p =
    (let key = make_key sid p in
     if key \<in> fst ` set (sessions st)
     then (st\<lparr>sessions := AList.delete key (sessions st)\<rparr>, True)
     else (st, False))"

text \<open>\<open>sessions.sort(key=lambda s: s.updated_at, reverse=True)\<close>: a stable sort, newest
  first; sessions with equal keys keep their order.\<close>

fun insort_desc :: "Session \<Rightarrow> Session list \<Rightarrow> Session list" where
  "insort_desc x [] = [x]"
| "insort_desc x (y # ys) =
    (if updated_at y \<le> updated_at x then x # y # ys else y # insort_desc x ys)"

definition sort_desc :: "Session list \<Rightarrow> Session list" where
  "sort_desc xs = foldr insort_desc xs []"

text \<open>\<open>xs[:limit]\<close> for a Python integer \<open>limit\<close>.\<close>

definition slice_to :: "int \<Rightarrow> 'a list \<Rightarrow> 'a list" where
  "slice_to limit xs =
    (if 0 \<le> limit then take (nat limit) xs else take (length xs - nat (- limit)) xs)"

definition list_sessions ::
  "InMemorySessionStorage \<Rightarrow> ProductType option \<Rightarrow> int \<Rightarrow> Session list" where
  "list_sessions st p limit =
    (let all = map snd (sessions st);
         chosen = (case p of None \<Rightarrow> all | Some q \<Rightarrow> filter (\<lambda>s. product s = q) all)
     in slice_to limit (sort_desc chosen))"

text \<open>The operations of the store, to run sequences of them.\<close>

datatype store_op =
    Get string ProductType
  | Save Session
  | Delete string ProductType
  | List_sessions "ProductType option" int

fun apply_op :: "InMemorySessionStorage \<Rightarrow> store_op \<Rightarrow> InMemorySessionStorage" where
  "apply_op st (Get sid p) = st"
| "apply_op st (Save s) = (case save st s of Inl e \<Rightarrow> st | Inr st' \<Rightarrow> st')"
| "apply_op st (Delete sid p) = fst (delete st sid p)"
| "apply_op st (List_sessions p limit) = st"

definition run :: "InMemorySessionStorage \<Rightarrow> store_op list \<Rightarrow> InMemorySessionStorage" where
  "run st ops = foldl apply_op st ops"

subsection \<open>Three chatbot sessions, oldest first\<close>

definition session_a :: Session where
  "session_a =
    \<lparr>session_id = ''a'', product = CHATBOT, messages = [\<lparr>role = ''user'', content = ''Hi''\<rparr>],
     created_at = (2025, 1, 1, 9, 0, 0, 0), updated_at = (2025, 1, 1, 9, 30, 0, 0),
     metadata = []\<rparr>"

definition session_b :: Session where
  "session_b =
    \<lparr>session_id = ''b'', product = CHATBOT, messages = [],
     created_at = (2025, 1, 2, 9, 0, 0, 0), updated_at = (2025, 1, 2, 9, 0, 0, 250000),
     metadata = []\<rparr>"

definition session_c :: Session where
  "session_c =
    \<lparr>session_id = ''c'', product = CHATBOT, messages = [],
     created_at = (2025, 1, 3, 9, 0, 0, 0), updated_at = (2025, 1, 3, 9, 0, 0, 0),
     metadata = []\<rparr>"

text \<open>Session \<open>b\<close> as a caller read it before the newer save.\<close>

definition session_b_stale :: Session where
  "session_b_stale = session_b\<lparr>updated_at := (2025, 1, 1, 8, 0, 0, 0)\<rparr>"

subsection \<open>JSON text and ISO 8601 text\<close>

text \<open>
  What \<open>json.dumps\<close> writes and \<open>json.loads\<close> reads, as a tree: the text between the
  two is not modelled. An object keeps its members in order, repeated names included.
\<close>

datatype json =
    JNull
  | JBool bool
  | JInt int
  | JStr string
  | JArr "json list"
  | JObj "(string \<times> json) list"

definition digit_char :: "nat \<Rightarrow> char" where
  "digit_char d = char_of (48 + d)"

definition digit_val :: "char \<Rightarrow> nat option" where
  "digit_val c =
    (let n = (of_char c :: nat) in if 48 \<le> n \<and> n \<le> 57 then Some (n - 48) else None)"

text \<open>\<open>'%0wd' % n\<close> for \<open>n < 10 ^ w\<close>.\<close>

fun pad :: "nat \<Rightarrow> nat \<Rightarrow> string" where
  "pad 0 n = []"
| "pad (Suc w) n = pad w (n div 10) @ [digit_char (n mod 10)]"

definition number :: "string \<Rightarrow> nat option" where
  "number s =
    (if s \<noteq> [] \<and> list_all (\<lambda>c. digit_val c \<noteq> None) s
     then Some (foldl (\<lambda>a c. 10 * a + the (digit_val c)) 0 s)
     else None)"

text \<open>\<open>datetime.isoformat()\<close> of a naive datetime: the microseconds are written only when
  they are not zero.\<close>

fun isoformat :: "datetime \<Rightarrow> string" where
  "isoformat (y, mo, d, h, mi, s, us) =
    pad 4 y @ ''-'' @ pad 2 mo @ ''-'' @ pad 2 d @ ''T'' @ pad 2 h @ '':'' @ pad 2 mi
      @ '':'' @ pad 2 s @ (if us = 0 then [] else ''.'' @ pad 6 us)"

text \<open>
  \<open>datetime.fromisoformat\<close> on the two shapes \<open>isoformat\<close> writes; \<open>None\<close> stands for
  its \<open>ValueError\<close>. (Other ISO 8601 shapes, which recent Pythons also read, are
  rejected here; \<open>save\<close> never writes them.)
\<close>

definition fromisoformat :: "string \<Rightarrow> datetime option" where
  "fromisoformat t =
    (if (length t = 19 \<or> length t = 26 \<and> t ! 19 = CHR ''.'')
        \<and> t ! 4 = CHR ''-'' \<and> t ! 7 = CHR ''-'' \<and> t ! 10 = CHR ''T''
        \<and> t ! 13 = CHR '':'' \<and> t ! 16 = CHR '':''
     then
       (case (number (take 4 t), number (take 2 (drop 5 t)), number (take 2 (drop 8 t)),
              number (take 2 (drop 11 t)), number (take 2 (drop 14 t)),
              number (take 2 (drop 17 t)),
              if length t = 26 then number (drop 20 t) else Some 0) of
          (Some y, Some mo, Some d, Some h, Some mi, Some s, Some us) \<Rightarrow>
            if valid_datetime (y, mo, d, h, mi, s, us) then Some (y, mo, d, h, mi, s, us)
            else None
        | _ \<Rightarrow> None)
     else None)"

text \<open>\<open>str(n)\<close> for an integer.\<close>

fun show_nat :: "nat \<Rightarrow> string" where
  "show_nat n = (if n < 10 then [digit_char n] else show_nat (n div 10) @ [digit_char (n mod 10)])"

definition show_int :: "int \<Rightarrow> string" where
  "show_int i = (if i < 0 then ''-'' @ show_nat (nat (- i)) else show_nat (nat i))"

text \<open>The name \<open>json.dumps\<close> gives a dict key: strings as they are, \<open>int\<close>, \<open>bool\<close> and
  \<open>None\<close> converted, anything else a \<open>TypeError\<close> (\<open>None\<close> here).\<close>

fun key_str :: "pyval \<Rightarrow> string option" where
  "key_str (PStr s) = Some s"
| "key_str (PInt i) = Some (show_int i)"
| "key_str (PBool b) = Some (if b then ''true'' else ''false'')"
| "key_str PNone = Some ''null''"
| "key_str _ = None"

text \<open>\<open>json.dumps\<close>: lists and tuples both become arrays; a value it cannot serialise is a
  \<open>TypeError\<close> (\<open>None\<close> here).\<close>

fun to_json :: "pyval \<Rightarrow> json option" where
  "to_json PNone = Some JNull"
| "to_json (PBool b) = Some (JBool b)"
| "to_json (PInt i) = Some (JInt i)"
| "to_json (PStr s) = Some (JStr s)"
| "to_json (PList xs) = map_option JArr (those (map to_json xs))"
| "to_json (PTuple xs) = map_option JArr (those (map to_json xs))"
| "to_json (PDict kvs) =
    map_option JObj
      (those (map (\<lambda>kv. case (key_str (fst kv), to_json (snd kv)) of
                           (Some k, Some j) \<Rightarrow> Some (k, j)
                         | _ \<Rightarrow> None) kvs))"
| "to_json (PObject a) = None"

text \<open>\<open>json.loads\<close>: an array becomes a list; an object becomes a dict, where a repeated
  name keeps its first position and its last value.\<close>

fun of_json :: "json \<Rightarrow> pyval" where
  "of_json JNull = PNone"
| "of_json (JBool b) = PBool b"
| "of_json (JInt i) = PInt i"
| "of_json (JStr s) = PStr s"
| "of_json (JArr js) = PList (map of_json js)"
| "of_json (JObj kvs) =
    PDict (foldl (\<lambda>acc kv. AList.update (PStr (fst kv)) (of_json (snd kv)) acc) [] kvs)"

text \<open>\<open>d[name]\<close> on the dict \<open>json.loads\<close> built from an object.\<close>

definition field :: "(string \<times> json) list \<Rightarrow> string \<Rightarrow> json option" where
  "field kvs k = map_of (rev kvs) k"

subsection \<open>RedisSessionStorage\<close>

text \<open>
  The Redis server behind the client: each key holds a value and the seconds it has left
  to live. \<open>SETEX\<close> with a time that is not positive is an error; \<open>DEL\<close> answers the
  number of keys it removed. The passing of time (expiry) is not modelled.
\<close>

record redis_entry =
  payload :: json
  expires_in :: int

record RedisSessionStorage =
  ttl :: int
  db :: "string \<Rightarrow> redis_entry option"

definition new_RedisSessionStorage :: "int \<Rightarrow> RedisSessionStorage" where
  "new_RedisSessionStorage ttl_seconds = \<lparr>ttl = ttl_seconds, db = Map.empty\<rparr>"

definition setex ::
  "(string \<Rightarrow> redis_entry option) \<Rightarrow> string \<Rightarrow> int \<Rightarrow> json
    \<Rightarrow> store_error + (string \<Rightarrow> redis_entry option)" where
  "setex m key seconds v =
    (if seconds \<le> 0 then Inl ResponseError
     else Inr (m(key \<mapsto> \<lparr>payload = v, expires_in = seconds\<rparr>)))"

text \<open>\<open>f"session:{product.value}:{session_id}"\<close>.\<close>

definition redis_make_key :: "string \<Rightarrow> ProductType \<Rightarrow> string" where
  "redis_make_key sid p = ''session:'' @ product_value p @ '':'' @ sid"

text \<open>The \<open>data\<close> dict of \<open>save\<close> as \<open>json.dumps\<close> writes it.\<close>

definition serialize :: "Session \<Rightarrow> store_error + json" where
  "serialize s =
    (case to_json (PDict (metadata s)) of
       None \<Rightarrow> Inl TypeError
     | Some md \<Rightarrow>
         Inr (JObj
           [(''session_id'', JStr (session_id s)),
            (''product'', JStr (product_value (product s))),
            (''messages'',
               JArr (map (\<lambda>m. JObj [(''role'', JStr (role m)), (''content'', JStr (content m))])
                      (messages s))),
            (''created_at'', JStr (isoformat (created_at s))),
            (''updated_at'', JStr (isoformat (updated_at s))),
            (''metadata'', md)]))"

definition redis_save :: "RedisSessionStorage \<Rightarrow> Session \<Rightarrow> store_error + RedisSessionStorage" where
  "redis_save st s =
    (let key = redis_make_key (session_id s) (product s) in
     case serialize s of
       Inl e \<Rightarrow> Inl e
     | Inr data \<Rightarrow>
         (case setex (db st) key (ttl st) data of
            Inl e \<Rightarrow> Inl e
          | Inr m \<Rightarrow> Inr (st\<lparr>db := m\<rparr>)))"

definition bind_err :: "'e + 'a \<Rightarrow> ('a \<Rightarrow> 'e + 'b) \<Rightarrow> 'e + 'b" where
  "bind_err x f = (case x of Inl e \<Rightarrow> Inl e | Inr v \<Rightarrow> f v)"

text \<open>\<open>session_data[name]\<close> read as a string; a missing name is a \<open>KeyError\<close>.\<close>

definition str_field :: "(string \<times> json) list \<Rightarrow> string \<Rightarrow> store_error + string" where
  "str_field kvs k =
    (case field kvs k of
       None \<Rightarrow> Inl KeyError
     | Some (JStr s) \<Rightarrow> Inr s
     | Some _ \<Rightarrow> Inl TypeError)"

text \<open>\<open>Message(**m)\<close>: exactly the names \<open>role\<close> and \<open>content\<close>.\<close>

definition message_of :: "json \<Rightarrow> store_error + Message" where
  "message_of j =
    (case j of
       JObj kvs \<Rightarrow>
         (if set (map fst kvs) = {''role'', ''content''}
          then bind_err (str_field kvs ''role'') (\<lambda>r.
               bind_err (str_field kvs ''content'') (\<lambda>c.
               Inr \<lparr>role = r, content = c\<rparr>))
          else Inl TypeError)
     | _ \<Rightarrow> Inl TypeError)"

fun sequence_err :: "('e + 'a) list \<Rightarrow> 'e + 'a list" where
  "sequence_err [] = Inr []"
| "sequence_err (x # xs) =
    bind_err x (\<lambda>v. bind_err (sequence_err xs) (\<lambda>vs. Inr (v # vs)))"

definition datetime_field :: "(string \<times> json) list \<Rightarrow> string \<Rightarrow> store_error + datetime" where
  "datetime_field kvs k =
    bind_err (str_field kvs k) (\<lambda>t.
      case fromisoformat t of None \<Rightarrow> Inl ValueError | Some dt \<Rightarrow> Inr dt)"

text \<open>
  The body of \<open>get\<close> after \<open>json.loads\<close>: the arguments of \<open>Session(...)\<close> are evaluated
  in order, and the first failure is the exception raised. A member of the wrong JSON
  type, which Python would store as it is, is reported as a \<open>TypeError\<close>.
\<close>

definition deserialize :: "json \<Rightarrow> store_error + Session" where
  "deserialize j =
    (case j of
       JObj kvs \<Rightarrow>
         bind_err (str_field kvs ''session_id'') (\<lambda>sid.
         bind_err (str_field kvs ''product'') (\<lambda>pv.
         bind_err (case ProductType_of pv of None \<Rightarrow> Inl ValueError | Some p \<Rightarrow> Inr p) (\<lambda>p.
         bind_err (case field kvs ''messages'' of
                     None \<Rightarrow> Inl KeyError
                   | Some (JArr ms) \<Rightarrow> sequence_err (map message_of ms)
                   | Some _ \<Rightarrow> Inl TypeError) (\<lambda>msgs.
         bind_err (datetime_field kvs ''created_at'') (\<lambda>c.
         bind_err (datetime_field kvs ''updated_at'') (\<lambda>u.
         bind_err (case field kvs ''metadata'' of
                     None \<Rightarrow> Inr []
                   | Some mj \<Rightarrow>
                       (case of_json mj of PDict md \<Rightarrow> Inr md | _ \<Rightarrow> Inl TypeError)) (\<lambda>md.
         Inr \<lparr>session_id = sid, product = p, messages = msgs, created_at = c,
              updated_at = u, metadata = md\<rparr>)))))))
     | _ \<Rightarrow> Inl TypeError)"

definition redis_get ::
  "RedisSessionStorage \<Rightarrow> string \<Rightarrow> ProductType \<Rightarrow> store_error + Session option" where
  "redis_get st sid p =
    (case db st (redis_make_key sid p) of
       None \<Rightarrow> Inr None
     | Some e \<Rightarrow> bind_err (deserialize (payload e)) (\<lambda>s. Inr (Some s)))"

definition redis_delete ::
  "RedisSessionStorage \<Rightarrow> string \<Rightarrow> ProductType \<Rightarrow> RedisSessionStorage \<times> bool" where
  "redis_delete st sid p =
    (let key = redis_make_key sid p;
         result = (if db st key = None then 0 else 1 :: int)
     in (st\<lparr>db := (db st)(key := None)\<rparr>, result > 0))"

text \<open>Metadata that \<open>json\<close> gives back as it was: \<open>None\<close>, booleans, integers, strings,
  lists of such values and dicts of such values under distinct string keys.\<close>

fun json_native :: "pyval \<Rightarrow> bool" where
  "json_native PNone = True"
| "json_native (PBool b) = True"
| "json_native (PInt i) = True"
| "json_native (PStr s) = True"
| "json_native (PList xs) = list_all json_native xs"
| "json_native (PTuple xs) = False"
| "json_native (PDict kvs) =
    (list_all (\<lambda>kv. (case fst kv of PStr k \<Rightarrow> True | _ \<Rightarrow> False) \<and> json_native (snd kv)) kvs
     \<and> distinct (map fst kvs))"
| "json_native (PObject a) = False"

text \<open>A session tagged with a tuple.\<close>

definition session_t :: Session where
  "session_t = session_a\<lparr>metadata := [(PStr ''tags'', PTuple [PStr ''vip''])]\<rparr>"

section \<open>Settings and the provider registry (config.py, core/fallback.py)\<close>

text \<open>The fields of \<open>Settings\<close> the registry reads.\<close>

record Settings =
  groq_api_key :: "string option"
  google_api_key :: "string option"
  openai_api_key :: "string option"
  anthropic_api_key :: "string option"
  llm_provider_order :: string
  groq_model :: string
  gemini_model :: string
  openai_model :: string
  anthropic_model :: string

definition default_settings :: Settings where
  "default_settings =
    \<lparr>groq_api_key = None, google_api_key = None, openai_api_key = None,
     anthropic_api_key = None, llm_provider_order = ''groq,gemini,openai,anthropic'',
     groq_model = ''llama-3.3-70b-versatile'', gemini_model = ''gemini-1.5-flash'',
     openai_model = ''gpt-4o-mini'', anthropic_model = ''claude-3-5-sonnet-20241022''\<rparr>"

text \<open>\<open>s.split(sep)\<close> for a one-character separator: never an empty list.\<close>

fun split_on :: "char \<Rightarrow> string \<Rightarrow> string list" where
  "split_on sep [] = [[]]"
| "split_on sep (x # xs) =
    (if x = sep then [] # split_on sep xs
     else (case split_on sep xs of
             [] \<Rightarrow> [[x]]
           | w # ws \<Rightarrow> (x # w) # ws))"

text \<open>
  \<open>str.strip()\<close> and \<open>str.lower()\<close>. A character of the model is a code point below
  256. Of these Python counts as whitespace the space, 0x09 to 0x0D, 0x1C to 0x1F, 0x85
  and 0xA0; \<open>lower\<close> maps A to Z, and 0xC0 to 0xDE without the multiplication sign
  0xD7, to the code point 32 above and leaves the others as they are.
\<close>

definition is_space :: "char \<Rightarrow> bool" where
  "is_space c =
    (let n = (of_char c :: nat)
     in n = 32 \<or> (9 \<le> n \<and> n \<le> 13) \<or> (28 \<le> n \<and> n \<le> 31) \<or> n = 133 \<or> n = 160)"

definition strip :: "string \<Rightarrow> string" where
  "strip s = rev (dropWhile is_space (rev (dropWhile is_space s)))"

definition lower_char :: "char \<Rightarrow> char" where
  "lower_char c =
    (case map_of (zip ''ABCDEFGHIJKLMNOPQRSTUVWXYZ'' ''abcdefghijklmnopqrstuvwxyz'') c of
       Some l \<Rightarrow> l
     | None \<Rightarrow>
         (let n = (of_char c :: nat)
          in if 192 \<le> n \<and> n \<le> 222 \<and> n \<noteq> 215 then char_of (n + 32) else c))"

definition lower :: "string \<Rightarrow> string" where
  "lower s = map lower_char s"

text \<open>The property \<open>Settings.provider_order\<close>.\<close>

definition provider_order :: "Settings \<Rightarrow> string list" where
  "provider_order st = map (\<lambda>p. lower (strip p)) (split_on CHR '','' (llm_provider_order st))"

text \<open>The client objects the factory builds, each from an API key and a model.\<close>

datatype client =
    GroqClient string string
  | GeminiClient string string
  | OpenAIClient string string

fun client_name :: "client \<Rightarrow> ProviderName" where
  "client_name (GroqClient k m) = GROQ"
| "client_name (GeminiClient k m) = GEMINI"
| "client_name (OpenAIClient k m) = OPENAI"

text \<open>Python's truth value of an optional string: \<open>None\<close> and \<open>""\<close> are false.\<close>

definition truthy :: "string option \<Rightarrow> bool" where
  "truthy k = (k \<noteq> None \<and> k \<noteq> Some [])"

text \<open>\<open>create_provider\<close>; the Anthropic branch is a TODO comment in the source, so the
  name falls through to \<open>return None\<close>.\<close>

definition create_provider :: "string \<Rightarrow> Settings \<Rightarrow> client option" where
  "create_provider provider_name st =
    (let provider_name = lower provider_name in
     if provider_name = ''groq'' \<and> truthy (groq_api_key st)
     then Some (GroqClient (the (groq_api_key st)) (groq_model st))
     else if provider_name = ''gemini'' \<and> truthy (google_api_key st)
     then Some (GeminiClient (the (google_api_key st)) (gemini_model st))
     else if provider_name = ''openai'' \<and> truthy (openai_api_key st)
     then Some (OpenAIClient (the (openai_api_key st)) (openai_model st))
     else None)"

text \<open>The loop of \<open>create_provider_chain\<close> over the names still to read; \<open>built\<close> is
  the list \<open>providers\<close> so far (the log lines are left out).\<close>

fun chain_loop :: "Settings \<Rightarrow> string list \<Rightarrow> client list \<Rightarrow> client list" where
  "chain_loop st [] built = built"
| "chain_loop st (provider_name # rest) built =
    (case create_provider provider_name st of
       Some client \<Rightarrow> chain_loop st rest (built @ [client])
     | None \<Rightarrow> chain_loop st rest built)"

definition create_provider_chain :: "Settings \<Rightarrow> client list" where
  "create_provider_chain st = chain_loop st (provider_order st) []"

subsection \<open>The registry's contract in the spec's words\<close>

text \<open>The provider an identifier names, and the credential configured for a provider.\<close>

definition named :: "string \<Rightarrow> ProviderName option" where
  "named ident =
    (if ident = ''groq'' then Some GROQ
     else if ident = ''gemini'' then Some GEMINI
     else if ident = ''openai'' then Some OPENAI
     else if ident = ''anthropic'' then Some ANTHROPIC
     else None)"

fun credential :: "Settings \<Rightarrow> ProviderName \<Rightarrow> string option" where
  "credential st GROQ = groq_api_key st"
| "credential st GEMINI = google_api_key st"
| "credential st OPENAI = openai_api_key st"
| "credential st ANTHROPIC = anthropic_api_key st"

fun configured_model :: "Settings \<Rightarrow> ProviderName \<Rightarrow> string" where
  "configured_model st GROQ = groq_model st"
| "configured_model st GEMINI = gemini_model st"
| "configured_model st OPENAI = openai_model st"
| "configured_model st ANTHROPIC = anthropic_model st"

text \<open>The providers that have a client class.\<close>

fun has_client :: "ProviderName \<Rightarrow> bool" where
  "has_client ANTHROPIC = False"
| "has_client p = True"

text \<open>The identifiers the chain keeps: those that name a provider with a client class
  whose credential is set and not empty.\<close>

definition kept :: "Settings \<Rightarrow> string \<Rightarrow> ProviderName option" where
  "kept st ident =
    (case named (lower ident) of
       None \<Rightarrow> None
     | Some p \<Rightarrow> if has_client p \<and> truthy (credential st p) then Some p else None)"

text \<open>Settings with only the Anthropic key set, and settings with keys for Groq,
  OpenAI and Anthropic and an order written with spaces and capitals.\<close>

definition anthropic_only :: Settings where
  "anthropic_only =
    default_settings\<lparr>anthropic_api_key := Some ''sk-ant'', llm_provider_order := ''anthropic''\<rparr>"

definition mixed_settings :: Settings where
  "mixed_settings =
    default_settings\<lparr>groq_api_key := Some ''gsk'', openai_api_key := Some ''sk'',
      anthropic_api_key := Some ''sk-ant'', google_api_key := Some [],
      llm_provider_order := ''OpenAI, gemini,anthropic ,mistral,groq''\<rparr>"

section \<open>Health checks (core/fallback.py, api/routes/health.py)\<close>

text \<open>
  What one probe comes to inside \<open>check_provider\<close>: \<open>provider.health_check()\<close> answers
  within the timeout, \<open>asyncio.wait_for\<close> gives up on it, or it raises. When the probes
  run and how long they take is not modelled; \<open>asyncio.gather\<close> hands back their results
  in the order of the providers.
\<close>

datatype probe = Answers bool | Times_out | Raises

text \<open>\<open>check_provider\<close>: \<open>None\<close> stands for the exception \<open>gather\<close> returns in place of a
  result.\<close>

fun check_provider :: "ProviderName \<times> probe \<Rightarrow> (string \<times> bool) option" where
  "check_provider (n, Answers healthy) = Some (provider_value n, healthy)"
| "check_provider (n, Times_out) = Some (provider_value n, False)"
| "check_provider (n, Raises) = None"

text \<open>\<open>FallbackChain.health_check\<close>: the result dict, filled in the order of the providers;
  an exception is passed over.\<close>

definition health_check :: "(ProviderName \<times> probe) list \<Rightarrow> (string \<times> bool) list" where
  "health_check ps =
    foldl (\<lambda>results check. case check of
                               None \<Rightarrow> results
                             | Some (n, healthy) \<Rightarrow> AList.update n healthy results)
      [] (map check_provider ps)"

text \<open>The status of the \<open>/health\<close> route.\<close>

definition health_status :: "(string \<times> bool) list \<Rightarrow> string" where
  "health_status provider_health =
    (let any_healthy = (if provider_health \<noteq> [] then list_ex snd provider_health else False)
     in if any_healthy then ''healthy'' else ''degraded'')"

text \<open>What a probe writes under its provider's name: its answer, \<open>False\<close> after a timeout,
  nothing when it raised.\<close>

fun recorded :: "probe \<Rightarrow> bool option" where
  "recorded (Answers healthy) = Some healthy"
| "recorded Times_out = Some False"
| "recorded Raises = None"

section \<open>Properties of cost estimation\<close>

lemma GROQ_PRICING_distinct: "distinct (map fst (GROQ_PRICING fl))"
  by (simp add: GROQ_PRICING_def)

text \<open>
  C7. \<open>estimate_cost\<close> depends on nothing but its arguments. Whenever rounding commutes
  with doubling (as binary floating point does away from overflow and underflow),
  doubling both token counts doubles the cost; the cost is the input tokens per million
  times the input rate plus the output tokens per million times the output rate of the
  model's row (the floats nearest to the table's decimals), and a model absent from the
  table is charged the default rate of 0.50 for both.
\<close>

theorem estimate_cost_linear:
  assumes fl2: "\<And>u. fl (2 * u) = 2 * fl u"
  shows "estimate_cost fl m (2 * x) (2 * y) = 2 * estimate_cost fl m x y
    \<and> estimate_cost fl m x y =
           fl (fl (fl (of_int x / 1000000) * fst (pricing_of fl m))
             + fl (fl (of_int y / 1000000) * snd (pricing_of fl m)))
    \<and> ((m, row) \<in> set (GROQ_PRICING fl) \<longrightarrow> pricing_of fl m = row)
    \<and> (m \<notin> fst ` set (GROQ_PRICING fl) \<longrightarrow> pricing_of fl m = (1 / 2, 1 / 2))"
proof (intro conjI impI)
  have a: "fl (of_int (2 * k) / 1000000) = 2 * fl (of_int k / 1000000)" for k :: int
    using fl2 [of "of_int k / 1000000"] by simp
  have b: "fl (2 * u * p) = 2 * fl (u * p)" for u p
    using fl2 [of "u * p"] by (simp add: mult.assoc)
  have c: "fl (2 * u + 2 * v) = 2 * fl (u + v)" for u v
    using fl2 [of "u + v"] by (simp add: distrib_left)
  show "estimate_cost fl m (2 * x) (2 * y) = 2 * estimate_cost fl m x y"
    unfolding estimate_cost_def Let_def by (simp only: a b c)
  show "estimate_cost fl m x y =
           fl (fl (fl (of_int x / 1000000) * fst (pricing_of fl m))
             + fl (fl (of_int y / 1000000) * snd (pricing_of fl m)))"
    by (simp add: estimate_cost_def Let_def)
next
  assume "(m, row) \<in> set (GROQ_PRICING fl)"
  then have "map_of (GROQ_PRICING fl) m = Some row"
    using GROQ_PRICING_distinct by (rule_tac map_of_is_SomeI)
  then show "pricing_of fl m = row"
    by (simp add: pricing_of_def)
next
  assume "m \<notin> fst ` set (GROQ_PRICING fl)"
  then have "map_of (GROQ_PRICING fl) m = None"
    by (simp add: map_of_eq_None_iff)
  then show "pricing_of fl m = (1 / 2, 1 / 2)"
    by (simp add: pricing_of_def DEFAULT_PRICING_def)
qed

theorem estimate_cost_linear_witness:
  "estimate_cost (\<lambda>u. u) ''llama-3.1-8b-instant'' (2 * 1000000) (2 * 2000000)
      = 2 * estimate_cost (\<lambda>u. u) ''llama-3.1-8b-instant'' 1000000 2000000
   \<and> estimate_cost (\<lambda>u. u) ''llama-3.1-8b-instant'' 1000000 2000000 = 21 / 100
   \<and> (''llama-3.1-8b-instant'', (5 / 100, 8 / 100)) \<in> set (GROQ_PRICING (\<lambda>u. u))
   \<and> pricing_of (\<lambda>u. u) ''llama-3.1-8b-instant'' = (5 / 100, 8 / 100)
   \<and> ''gpt-4o-mini'' \<notin> fst ` set (GROQ_PRICING (\<lambda>u. u))
   \<and> pricing_of (\<lambda>u. u) ''gpt-4o-mini'' = (1 / 2, 1 / 2)"
proof -
  have in_table: "(''llama-3.1-8b-instant'', (5 / 100, 8 / 100)) \<in> set (GROQ_PRICING (\<lambda>u. u))"
    by (simp add: GROQ_PRICING_def)
  have absent: "''gpt-4o-mini'' \<notin> fst ` set (GROQ_PRICING (\<lambda>u. u))"
    by (simp add: GROQ_PRICING_def)
  have row: "pricing_of (\<lambda>u. u) ''llama-3.1-8b-instant'' = (5 / 100, 8 / 100)"
    using estimate_cost_linear [where fl = "\<lambda>u. u" and m = "''llama-3.1-8b-instant''"
        and row = "(5 / 100, 8 / 100)"] in_table by simp
  have dflt: "pricing_of (\<lambda>u. u) ''gpt-4o-mini'' = (1 / 2, 1 / 2)"
    using estimate_cost_linear [where fl = "\<lambda>u. u" and m = "''gpt-4o-mini''"] absent
    by simp
  have dbl: "estimate_cost (\<lambda>u. u) ''llama-3.1-8b-instant'' (2 * 1000000) (2 * 2000000)
      = 2 * estimate_cost (\<lambda>u. u) ''llama-3.1-8b-instant'' 1000000 2000000"
    using estimate_cost_linear [where fl = "\<lambda>u. u" and m = "''llama-3.1-8b-instant''"
        and x = 1000000 and y = 2000000]
    by simp
  have val: "estimate_cost (\<lambda>u. u) ''llama-3.1-8b-instant'' 1000000 2000000 = 21 / 100"
    using estimate_cost_linear [where fl = "\<lambda>u. u" and m = "''llama-3.1-8b-instant''"
        and x = 1000000 and y = 2000000]
    by (simp add: row)
  show ?thesis using in_table absent row dflt dbl val by simp
qed

section \<open>Properties of the fallback chain\<close>

subsection \<open>Chains of pairwise distinct client objects\<close>

lemma failure_records_Nil [simp]: "failure_records [] = []"
  by (simp add: failure_records_def map_filter_simps)

lemma failure_records_Cons:
  "outcome p = Raises_ProviderError e \<Longrightarrow>
    failure_records (p # ps) = failure_attempt p e # failure_records ps"
  by (simp add: failure_records_def map_filter_simps)

lemma failure_records_append:
  "failure_records (ps @ qs) = failure_records ps @ failure_records qs"
  by (simp add: failure_records_def map_filter_def)

lemma length_failure_records:
  "list_all classified_failure ps \<Longrightarrow> length (failure_records ps) = length ps"
proof (induction ps)
  case Nil
  then show ?case by simp
next
  case (Cons p ps)
  then obtain e where "outcome p = Raises_ProviderError e"
    by (auto simp: classified_failure_def split: outcome.splits)
  with Cons show ?case by (simp add: failure_records_Cons)
qed

text \<open>The loop passes over backends that fail with a \<open>ProviderError\<close> and do not trip
  the fail-fast test: each leaves one failure record, in order.\<close>

lemma complete_loop_skip:
  assumes "list_all (\<lambda>p. classified_failure p \<and> \<not> hard_stop ch p) pre"
  shows "complete_loop ch (pre @ rest) atts tr =
    complete_loop ch rest (atts @ failure_records pre)
      (tr\<lparr>invoked := invoked tr @ map ref pre,
          notified := notified tr @ (if on_fallback ch then failure_records pre else [])\<rparr>)"
  using assms
proof (induction pre arbitrary: atts tr)
  case Nil
  then show ?case by simp
next
  case (Cons p pre)
  then obtain e where e: "outcome p = Raises_ProviderError e"
    by (auto simp: classified_failure_def split: outcome.splits)
  with Cons.prems have nostop: "\<not> (\<not> retryable e \<and> ref p = ref (last (providers ch)))"
    by (simp add: hard_stop_def)
  from Cons.prems have rest: "list_all (\<lambda>p. classified_failure p \<and> \<not> hard_stop ch p) pre"
    by simp
  show ?case
    using e nostop by (auto simp add: Cons.IH [OF rest] failure_records_Cons Let_def)
qed


text \<open>When the client objects of the list are pairwise distinct, the fail-fast test can
  hold at the last position only.\<close>

lemma no_hard_stop_distinct:
  assumes "providers ch = pre @ q # rest" and "distinct (map ref (providers ch))"
    and "p \<in> set pre"
  shows "\<not> hard_stop ch p"
proof -
  have "last (providers ch) \<in> set (q # rest)"
    using assms(1) by (metis last_appendR last_in_set list.distinct(1))
  moreover have "ref p \<notin> ref ` set (q # rest)"
    using assms by (auto simp: disjoint_iff image_iff)
  ultimately have "ref p \<noteq> ref (last (providers ch))"
    by (metis imageI)
  then show ?thesis
    by (simp add: hard_stop_def split: outcome.splits)
qed

lemma complete_skip_distinct:
  assumes ps: "providers ch = pre @ q # rest" and d: "distinct (map ref (providers ch))"
    and f: "list_all classified_failure pre"
  shows "complete ch =
    complete_loop ch (q # rest) (failure_records pre)
      \<lparr>invoked = map ref pre,
       notified = (if on_fallback ch then failure_records pre else [])\<rparr>"
proof -
  have "list_all (\<lambda>p. classified_failure p \<and> \<not> hard_stop ch p) pre"
    using f no_hard_stop_distinct [OF ps d] by (simp add: list_all_iff)
  from complete_loop_skip [OF this, of "q # rest" "[]" empty_trace]
  show ?thesis
    by (simp add: complete_def ps empty_trace_def)
qed

text \<open>
  First success wins: if the backends before \<open>q\<close> fail with a \<open>ProviderError\<close> and
  \<open>q\<close> succeeds, the chain returns \<open>q\<close>'s result with one failure record per earlier
  backend followed by one success record, and invokes no backend after \<open>q\<close>.
\<close>

lemma complete_first_success_distinct:
  assumes ps: "providers ch = pre @ q # rest" and d: "distinct (map ref (providers ch))"
    and f: "list_all classified_failure pre" and q: "outcome q = Returns r"
  shows "complete ch =
    (Inr \<lparr>result = r, attempts = failure_records pre @ [success_attempt q]\<rparr>,
     \<lparr>invoked = map ref pre @ [ref q],
      notified = (if on_fallback ch then failure_records pre else [])\<rparr>)"
  by (simp add: complete_skip_distinct [OF ps d f] q)

lemma complete_first_success_counts:
  assumes ps: "providers ch = pre @ q # rest" and d: "distinct (map ref (providers ch))"
    and f: "list_all classified_failure pre" and q: "outcome q = Returns r"
  shows "\<exists>r'. fst (complete ch) = Inr r' \<and> result r' = r
    \<and> length (attempts r') = length pre + 1
    \<and> fallback_used r' = (length pre + 1 > 1)
    \<and> invoked (snd (complete ch)) = map ref (pre @ [q])"
  using length_failure_records [OF f]
  by (simp add: complete_first_success_distinct [OF ps d f q] fallback_used_def)

lemma complete_loop_invoked_prefix:
  "prefix (invoked tr) (invoked (snd (complete_loop ch ps atts tr)))"
proof (induction ps arbitrary: atts tr)
  case Nil
  then show ?case by simp
next
  case (Cons p ps)
  have step: "prefix (invoked tr) (invoked (snd (complete_loop ch ps a t)))"
    if "prefix (invoked tr) (invoked t)" for a t
    using that Cons.IH [where atts = a and tr = t] by (rule prefix_order.trans)
  show ?case
    by (auto simp: Let_def split: outcome.splits intro!: step)
qed

lemma complete_loop_invokes_head:
  "prefix (invoked tr @ [ref p]) (invoked (snd (complete_loop ch (p # ps) atts tr)))"
proof -
  have step: "prefix (invoked tr @ [ref p]) (invoked (snd (complete_loop ch ps a t)))"
    if "invoked t = invoked tr @ [ref p]" for a t
    using complete_loop_invoked_prefix [where tr = t and ch = ch and ps = ps and atts = a] that
    by simp
  show ?thesis
    by (auto simp: Let_def split: outcome.splits intro!: step)
qed


text \<open>If every backend fails with a \<open>ProviderError\<close>, the chain raises
  \<open>AllProvidersFailedError\<close> with one failure record per backend, in order.\<close>

lemma complete_all_fail_distinct:
  assumes ps: "providers ch = ps" and ne: "ps \<noteq> []"
    and d: "distinct (map ref ps)" and f: "list_all classified_failure ps"
  shows "complete ch =
    (Inl (AllProvidersFailedError (failure_records ps)),
     \<lparr>invoked = map ref ps,
      notified = (if on_fallback ch then failure_records ps else [])\<rparr>)"
proof -
  obtain pre q where split: "ps = pre @ [q]"
    using ne by (metis append_butlast_last_id)
  from f split obtain e where e: "outcome q = Raises_ProviderError e"
    by (auto simp: classified_failure_def split: outcome.splits)
  have pre: "list_all classified_failure pre"
    using f split by simp
  have "complete ch =
    complete_loop ch [q] (failure_records pre)
      \<lparr>invoked = map ref pre,
       notified = (if on_fallback ch then failure_records pre else [])\<rparr>"
    using complete_skip_distinct [of ch pre q "[]"] ps split d pre by simp
  then show ?thesis
    using e by (simp add: split failure_records_append failure_records_Cons Let_def)
qed

lemma sublist_join: "x \<in> set xs \<Longrightarrow> sublist x (join sep xs)"
proof (induction sep xs rule: join.induct)
  case (1 sep)
  then show ?case by simp
next
  case (2 sep x')
  then show ?case by simp
next
  case (3 sep x' y ys)
  show ?case
  proof (cases "x = x'")
    case True
    then show ?thesis by simp
  next
    case False
    with 3 have "sublist x (join sep (y # ys))" by simp
    then have "sublist x ((x' @ sep) @ join sep (y # ys))"
      by (rule sublist_order.order.trans) (rule sublist_append_leftI)
    then show ?thesis by simp
  qed
qed

text \<open>The text of the error contains the message of every backend that failed.\<close>

lemma error_text_mentions:
  assumes "p \<in> set ps" and "outcome p = Raises_ProviderError e"
  shows "sublist (message e) (error_text (failure_records ps))"
proof -
  let ?a = "failure_attempt p e"
  let ?line = "provider_value (provider ?a) @ '': '' @ the (error ?a)"
  have "?a \<in> set (failure_records ps)"
    using assms by (force simp: failure_records_def map_filter_def)
  moreover have "error ?a \<noteq> None \<and> error ?a \<noteq> Some []"
    by (simp add: failure_attempt_def str_ProviderError_def)
  ultimately have "?line \<in> set (error_lines (failure_records ps))"
    by (auto simp: error_lines_def)
  then have "sublist ?line (join ''; '' (error_lines (failure_records ps)))"
    by (rule sublist_join)
  then have 1: "sublist ?line (error_text (failure_records ps))"
    unfolding error_text_def
    by (rule sublist_order.order.trans) (rule sublist_append_leftI)
  have "?line = (provider_value (name p) @ '': '' @ provider_value (err_provider e) @ '': '')
      @ message e @ []"
    by (simp add: failure_attempt_def str_ProviderError_def)
  then have "sublist (message e) ?line"
    by (metis sublist_appendI)
  then show ?thesis
    using 1 by (rule sublist_order.order.trans)
qed

text \<open>A non-retryable failure aborts the chain when the backend is the last of the list;
  anywhere else the loop goes on and the next backend is invoked.\<close>

lemma complete_nonretryable_distinct:
  assumes ps: "providers ch = pre @ p # rest" and d: "distinct (map ref (providers ch))"
    and f: "list_all classified_failure pre"
    and e: "outcome p = Raises_ProviderError e" and nr: "\<not> retryable e"
  shows "(rest = [] \<longrightarrow>
           complete ch =
             (Inl (AllProvidersFailedError (failure_records pre @ [failure_attempt p e])),
              \<lparr>invoked = map ref pre @ [ref p],
               notified = (if on_fallback ch then failure_records pre @ [failure_attempt p e]
                           else [])\<rparr>))
       \<and> (rest \<noteq> [] \<longrightarrow>
           complete ch =
             complete_loop ch rest (failure_records pre @ [failure_attempt p e])
               \<lparr>invoked = map ref pre @ [ref p],
                notified = (if on_fallback ch then failure_records pre @ [failure_attempt p e]
                            else [])\<rparr>
           \<and> prefix (map ref pre @ [ref p, ref (hd rest)]) (invoked (snd (complete ch))))"
proof (intro conjI impI)
  assume "rest = []"
  then show "complete ch =
             (Inl (AllProvidersFailedError (failure_records pre @ [failure_attempt p e])),
              \<lparr>invoked = map ref pre @ [ref p],
               notified = (if on_fallback ch then failure_records pre @ [failure_attempt p e]
                           else [])\<rparr>)"
    using ps e nr by (simp add: complete_skip_distinct [OF ps d f] Let_def)
next
  assume ne: "rest \<noteq> []"
  have "last (providers ch) \<in> set rest"
    using ps ne by simp
  then have "ref p \<noteq> ref (last (providers ch))"
    using d ps by (auto simp: image_iff)
  then show loop: "complete ch =
             complete_loop ch rest (failure_records pre @ [failure_attempt p e])
               \<lparr>invoked = map ref pre @ [ref p],
                notified = (if on_fallback ch then failure_records pre @ [failure_attempt p e]
                            else [])\<rparr>"
    using e by (simp add: complete_skip_distinct [OF ps d f] Let_def)
  obtain q qs where rest: "rest = q # qs"
    using ne by (cases rest) auto
  show "prefix (map ref pre @ [ref p, ref (hd rest)]) (invoked (snd (complete ch)))"
    unfolding loop rest
    using complete_loop_invokes_head
      [where ch = ch and p = q and ps = qs
         and tr = "\<lparr>invoked = map ref pre @ [ref p],
                notified = (if on_fallback ch then failure_records pre @ [failure_attempt p e]
                            else [])\<rparr>"]
    by simp
qed

subsection \<open>The empty chain\<close>

text \<open>
  C10. A chain constructed with an empty provider list invokes no backend and raises
  \<open>AllProvidersFailedError\<close> with an empty attempts list, whose message names no
  backend.
\<close>

theorem complete_empty_chain:
  "complete \<lparr>providers = [], on_fallback = cb\<rparr>
     = (Inl (AllProvidersFailedError []), \<lparr>invoked = [], notified = []\<rparr>)
   \<and> error_text [] = ''All providers failed: ''"
  by (simp add: complete_def empty_trace_def error_text_def error_lines_def)

subsection \<open>The fail-fast check on a chain that repeats a client\<close>

text \<open>
  C1. The claim: if the i-th backend succeeds and every earlier one fails with a
  \<open>ProviderError\<close>, the chain returns the i-th backend's result with i attempts. For
  chains of pairwise distinct client objects this is \<open>complete_first_success_distinct\<close>.
  On \<open>[groq, gemini, groq]\<close>, where the second backend succeeds and the first fails
  with a non-retryable error, the source's test \<open>provider == self.providers[-1]\<close> holds
  at the first position, so the chain raises after one attempt and Gemini is never
  invoked.
\<close>

theorem complete_repeated_client_skips_success:
  "classified_failure groq_client \<and> outcome gemini_ok = Returns answer
   \<and> complete \<lparr>providers = [groq_client, gemini_ok, groq_client], on_fallback = False\<rparr>
     = (Inl (AllProvidersFailedError [failure_attempt groq_client bad_request]),
        \<lparr>invoked = [1], notified = []\<rparr>)"
  by (simp add: complete_def empty_trace_def groq_client_def gemini_ok_def bad_request_def
      classified_failure_def Let_def)

text \<open>
  C2. The claim: a non-retryable failure aborts exactly when the backend is the last of
  the list, and otherwise the next backend is still attempted. For chains of pairwise
  distinct client objects this is \<open>complete_nonretryable_distinct\<close>. On
  \<open>[groq, gemini, groq]\<close> the non-retryable failure at the first of three positions
  aborts: one client is invoked, one attempt is recorded and handed to the callback.
\<close>

theorem complete_repeated_client_aborts_early:
  "\<not> retryable bad_request
   \<and> invoked (snd (complete
        \<lparr>providers = [groq_client, gemini_limited, groq_client], on_fallback = True\<rparr>)) = [1]
   \<and> notified (snd (complete
        \<lparr>providers = [groq_client, gemini_limited, groq_client], on_fallback = True\<rparr>))
      = [failure_attempt groq_client bad_request]"
  by (simp add: complete_def empty_trace_def groq_client_def gemini_limited_def
      bad_request_def Let_def)

text \<open>
  C3. The claim: if all k backends fail with a \<open>ProviderError\<close>, the error carries k
  attempts and its text names every backend's message. For chains of pairwise distinct
  client objects this is \<open>complete_all_fail_distinct\<close> with \<open>error_text_mentions\<close>.
  On \<open>[groq, gemini, groq]\<close> with all three failing, the error carries one attempt
  and its text is that of the first failure alone.
\<close>

theorem complete_repeated_client_loses_attempts:
  "list_all classified_failure [groq_client, gemini_limited, groq_client]
   \<and> (case fst (complete
          \<lparr>providers = [groq_client, gemini_limited, groq_client], on_fallback = False\<rparr>) of
        Inl (AllProvidersFailedError atts) \<Rightarrow>
          length atts = 1
          \<and> error_text atts = ''All providers failed: groq: groq: invalid request''
      | _ \<Rightarrow> False)"
  by (simp add: complete_def empty_trace_def groq_client_def gemini_limited_def
      bad_request_def rate_limited_def classified_failure_def Let_def
      error_text_def error_lines_def failure_attempt_def str_ProviderError_def)

section \<open>Properties of the in-memory session store\<close>

lemma min_by_None: "min_by f xs = None \<longleftrightarrow> xs = []"
  by (induction xs) (auto split: option.splits)

lemma min_by_Some:
  "min_by f xs = Some x \<Longrightarrow> x \<in> set xs \<and> (\<forall>y\<in>set xs. f x \<le> f y)"
proof (induction xs arbitrary: x)
  case Nil
  then show ?case by simp
next
  case (Cons a xs)
  show ?case
  proof (cases "min_by f xs")
    case None
    then have "xs = []" by (simp add: min_by_None)
    with Cons.prems None show ?thesis by simp
  next
    case (Some y)
    with Cons.IH have y: "y \<in> set xs" "\<forall>z\<in>set xs. f y \<le> f z" by auto
    show ?thesis
    proof (cases "f y < f a")
      case True
      with Cons.prems Some have "x = y" by simp
      with y True show ?thesis by auto
    next
      case False
      with Cons.prems Some have "x = a" by simp
      with y False show ?thesis by (auto intro: order_trans)
    qed
  qed
qed

lemma update_absent: "k \<notin> fst ` set xs \<Longrightarrow> AList.update k v xs = xs @ [(k, v)]"
  by (induction xs) auto

lemma update_present_keys: "k \<in> fst ` set xs \<Longrightarrow> map fst (AList.update k v xs) = map fst xs"
  by (induction xs) auto

lemma length_delete_present:
  "distinct (map fst xs) \<Longrightarrow> (k, v) \<in> set xs \<Longrightarrow>
    length (AList.delete k xs) = length xs - 1"
proof (induction xs)
  case Nil
  then show ?case by simp
next
  case (Cons a xs)
  show ?case
  proof (cases "fst a = k")
    case True
    with Cons.prems have "k \<notin> fst ` set xs" by auto
    then have "AList.delete k xs = xs"
      by (rule AList.delete_id)
    with True show ?thesis by (cases a) simp
  next
    case False
    with Cons.prems have in_xs: "(k, v) \<in> set xs" by auto
    then have "xs \<noteq> []" by auto
    have "distinct (map fst xs)" using Cons.prems by simp
    from Cons.IH [OF this in_xs] False \<open>xs \<noteq> []\<close> show ?thesis
      by (cases a) simp
  qed
qed

lemma set_delete_present:
  assumes "distinct (map fst xs)" and "(k, v) \<in> set xs"
  shows "set (AList.delete k xs) = set xs - {(k, v)}"
proof -
  have "v' = v" if "(k, v') \<in> set xs" for v'
    using assms that by (rule_tac eq_key_imp_eq_value)
  then show ?thesis
    by (auto simp: AList.delete_eq)
qed

lemma length_update:
  "length (AList.update k v xs) = (if k \<in> fst ` set xs then length xs else Suc (length xs))"
  by (induction xs) auto

definition store_inv :: "int \<Rightarrow> InMemorySessionStorage \<Rightarrow> bool" where
  "store_inv N st \<longleftrightarrow>
    distinct (map fst (sessions st)) \<and> int (length (sessions st)) \<le> N \<and> max_sessions st = N"

lemma save_present:
  assumes "make_key (session_id s) (product s) \<in> fst ` set (sessions st)"
  shows "save st s =
    Inr (st\<lparr>sessions := AList.update (make_key (session_id s) (product s)) s (sessions st)\<rparr>)"
  using assms by (simp add: save_def)

lemma save_room:
  assumes "int (length (sessions st)) < max_sessions st"
  shows "save st s =
    Inr (st\<lparr>sessions := AList.update (make_key (session_id s) (product s)) s (sessions st)\<rparr>)"
  using assms by (simp add: save_def)

lemma save_full:
  assumes new: "make_key (session_id s) (product s) \<notin> fst ` set (sessions st)"
    and full: "max_sessions st \<le> int (length (sessions st))"
    and ne: "sessions st \<noteq> []"
  shows "\<exists>k0 v0. min_by (\<lambda>(k, v). updated_at v) (sessions st) = Some (k0, v0)
    \<and> (k0, v0) \<in> set (sessions st)
    \<and> (\<forall>(k, v)\<in>set (sessions st). updated_at v0 \<le> updated_at v)
    \<and> save st s =
        Inr (st\<lparr>sessions :=
          AList.delete k0 (sessions st) @ [(make_key (session_id s) (product s), s)]\<rparr>)"
proof -
  obtain k0 v0 where m: "min_by (\<lambda>(k, v). updated_at v) (sessions st) = Some (k0, v0)"
    using ne by (cases "min_by (\<lambda>(k, v). updated_at v) (sessions st)")
      (auto simp: min_by_None)
  from min_by_Some [OF m] have mem: "(k0, v0) \<in> set (sessions st)"
    and least: "\<forall>(k, v)\<in>set (sessions st). updated_at v0 \<le> updated_at v"
    by auto
  have "make_key (session_id s) (product s) \<notin> fst ` set (AList.delete k0 (sessions st))"
    using new by (auto simp: AList.delete_eq)
  then have "AList.update (make_key (session_id s) (product s)) s (AList.delete k0 (sessions st))
      = AList.delete k0 (sessions st) @ [(make_key (session_id s) (product s), s)]"
    by (rule update_absent)
  with new full m have "save st s =
        Inr (st\<lparr>sessions :=
          AList.delete k0 (sessions st) @ [(make_key (session_id s) (product s), s)]\<rparr>)"
    by (simp add: save_def)
  with m mem least show ?thesis by blast
qed

lemma store_inv_save:
  assumes inv: "store_inv N st" and cap: "1 \<le> N"
  shows "\<exists>st'. save st s = Inr st' \<and> store_inv N st'"
proof -
  let ?key = "make_key (session_id s) (product s)"
  from inv have d: "distinct (map fst (sessions st))"
    and le: "int (length (sessions st)) \<le> N" and mx: "max_sessions st = N"
    by (simp_all add: store_inv_def)
  show ?thesis
  proof (cases "?key \<in> fst ` set (sessions st)")
    case True
    then show ?thesis
      using d le mx
      by (simp add: save_present store_inv_def distinct_update length_update)
  next
    case new: False
    show ?thesis
    proof (cases "int (length (sessions st)) < N")
      case True
      then show ?thesis
        using d mx new by (simp add: save_room store_inv_def distinct_update length_update)
    next
      case False
      with le have full: "int (length (sessions st)) = N" by simp
      with cap have ne: "sessions st \<noteq> []" by auto
      from save_full [OF new _ ne] full mx obtain k0 v0
        where mem: "(k0, v0) \<in> set (sessions st)"
          and sv: "save st s = Inr (st\<lparr>sessions := AList.delete k0 (sessions st) @ [(?key, s)]\<rparr>)"
        by auto
      have len: "length (AList.delete k0 (sessions st)) = length (sessions st) - 1"
        using d mem by (rule length_delete_present)
      have "?key \<notin> fst ` set (AList.delete k0 (sessions st))"
        using new by (auto simp: AList.delete_eq)
      moreover have "distinct (map fst (AList.delete k0 (sessions st)))"
        using d by (rule distinct_delete)
      ultimately have "distinct (map fst (AList.delete k0 (sessions st) @ [(?key, s)]))"
        by simp
      with sv len full mx ne show ?thesis
        by (simp add: store_inv_def) 
    qed
  qed
qed

lemma store_inv_delete:
  assumes inv: "store_inv N st"
  shows "store_inv N (fst (delete st sid p))"
proof -
  have "int (length (AList.delete (make_key sid p) (sessions st))) \<le> int (length (sessions st))"
    using length_delete_le [of "make_key sid p" "sessions st"] by simp
  with inv have "int (length (AList.delete (make_key sid p) (sessions st))) \<le> N"
    by (simp add: store_inv_def)
  with inv show ?thesis
    by (simp add: store_inv_def delete_def Let_def distinct_delete)
qed

lemma store_inv_apply_op:
  assumes "store_inv N st" and "1 \<le> N"
  shows "store_inv N (apply_op st op)"
proof (cases op)
  case (Save s)
  with store_inv_save [OF assms, of s] show ?thesis by auto
next
  case (Delete sid p)
  with store_inv_delete [OF assms(1)] show ?thesis by simp
qed (use assms in simp_all)

lemma store_inv_run:
  assumes "1 \<le> N"
  shows "store_inv N (run (new_InMemorySessionStorage N) ops)"
proof (induction ops rule: rev_induct)
  case Nil
  from assms show ?case
    by (simp add: run_def new_InMemorySessionStorage_def store_inv_def)
next
  case (snoc op ops)
  then show ?case
    using store_inv_apply_op [OF _ assms] by (simp add: run_def)
qed

text \<open>
  C5. Take a store of capacity \<open>N \<ge> 1\<close> in any state reached from the empty store by
  any sequence of operations. It never holds more than \<open>N\<close> entries. A save to a key
  already present evicts nothing: the keys of the store stay as they are. A save of a new
  key while the store holds at least \<open>N\<close> entries removes exactly one entry, one whose
  \<open>updated_at\<close> is smallest, then inserts the session, and the store holds \<open>N\<close>
  entries afterwards.
\<close>

theorem save_bounded_store:
  assumes cap: "1 \<le> N" and st: "st = run (new_InMemorySessionStorage N) ops"
    and key: "key = make_key (session_id s) (product s)"
  shows "int (length (sessions st)) \<le> N
    \<and> (key \<in> fst ` set (sessions st) \<longrightarrow>
          save st s = Inr (st\<lparr>sessions := AList.update key s (sessions st)\<rparr>)
          \<and> map fst (AList.update key s (sessions st)) = map fst (sessions st))
    \<and> (key \<notin> fst ` set (sessions st) \<and> N \<le> int (length (sessions st)) \<longrightarrow>
          (\<exists>k0 v0. (k0, v0) \<in> set (sessions st)
             \<and> (\<forall>(k, v)\<in>set (sessions st). updated_at v0 \<le> updated_at v)
             \<and> save st s = Inr (st\<lparr>sessions := AList.delete k0 (sessions st) @ [(key, s)]\<rparr>)
             \<and> set (AList.delete k0 (sessions st)) = set (sessions st) - {(k0, v0)}
             \<and> int (length (AList.delete k0 (sessions st) @ [(key, s)])) = N))"
proof -
  have inv: "store_inv N st"
    unfolding st using cap by (rule store_inv_run)
  then have d: "distinct (map fst (sessions st))"
    and le: "int (length (sessions st)) \<le> N" and mx: "max_sessions st = N"
    by (simp_all add: store_inv_def)
  have present: "save st s = Inr (st\<lparr>sessions := AList.update key s (sessions st)\<rparr>)
      \<and> map fst (AList.update key s (sessions st)) = map fst (sessions st)"
    if "key \<in> fst ` set (sessions st)"
    using that save_present [of s st] by (simp add: key update_present_keys)
  have full: "\<exists>k0 v0. (k0, v0) \<in> set (sessions st)
             \<and> (\<forall>(k, v)\<in>set (sessions st). updated_at v0 \<le> updated_at v)
             \<and> save st s = Inr (st\<lparr>sessions := AList.delete k0 (sessions st) @ [(key, s)]\<rparr>)
             \<and> set (AList.delete k0 (sessions st)) = set (sessions st) - {(k0, v0)}
             \<and> int (length (AList.delete k0 (sessions st) @ [(key, s)])) = N"
    if new: "key \<notin> fst ` set (sessions st)" and ge: "N \<le> int (length (sessions st))"
  proof -
    from ge le have eq: "int (length (sessions st)) = N" by simp
    with cap have ne: "sessions st \<noteq> []" by auto
    from save_full [of s st] new ge mx ne key obtain k0 v0
      where mem: "(k0, v0) \<in> set (sessions st)"
        and least: "\<forall>(k, v)\<in>set (sessions st). updated_at v0 \<le> updated_at v"
        and sv: "save st s = Inr (st\<lparr>sessions := AList.delete k0 (sessions st) @ [(key, s)]\<rparr>)"
      by auto
    have "length (AList.delete k0 (sessions st)) = length (sessions st) - 1"
      using d mem by (rule length_delete_present)
    with eq ne have len: "int (length (AList.delete k0 (sessions st) @ [(key, s)])) = N"
      by (cases "sessions st") simp_all
    have "set (AList.delete k0 (sessions st)) = set (sessions st) - {(k0, v0)}"
      using d mem by (rule set_delete_present)
    with mem least sv len show ?thesis by blast
  qed
  from le present full show ?thesis by blast
qed

lemma two_saves:
  "run (new_InMemorySessionStorage 2) [Save session_a, Save session_b]
    = \<lparr>sessions = [(''chatbot:a'', session_a), (''chatbot:b'', session_b)], max_sessions = 2\<rparr>"
  by (simp add: run_def new_InMemorySessionStorage_def save_def make_key_def
      session_a_def session_b_def)

theorem save_bounded_store_witness:
  "(1 :: int) \<le> 2
   \<and> length (sessions (run (new_InMemorySessionStorage 2) [Save session_a, Save session_b])) = 2
   \<and> make_key (session_id session_c) (product session_c)
       \<notin> fst ` set (sessions (run (new_InMemorySessionStorage 2) [Save session_a, Save session_b]))
   \<and> save (run (new_InMemorySessionStorage 2) [Save session_a, Save session_b]) session_c
       = Inr \<lparr>sessions = [(''chatbot:b'', session_b), (''chatbot:c'', session_c)],
              max_sessions = 2\<rparr>
   \<and> make_key (session_id session_b) (product session_b)
       \<in> fst ` set (sessions (run (new_InMemorySessionStorage 2) [Save session_a, Save session_b]))
   \<and> save (run (new_InMemorySessionStorage 2) [Save session_a, Save session_b]) session_b
       = Inr \<lparr>sessions = [(''chatbot:a'', session_a), (''chatbot:b'', session_b)],
              max_sessions = 2\<rparr>"
proof -
  let ?st = "run (new_InMemorySessionStorage 2) [Save session_a, Save session_b]"
  have keyb: "make_key (session_id session_b) (product session_b) = ''chatbot:b''"
    by (simp add: make_key_def session_b_def)
  have keyc: "make_key (session_id session_c) (product session_c) = ''chatbot:c''"
    by (simp add: make_key_def session_c_def)
  have new: "make_key (session_id session_c) (product session_c) \<notin> fst ` set (sessions ?st)"
    unfolding keyc two_saves by simp
  have old: "make_key (session_id session_b) (product session_b) \<in> fst ` set (sessions ?st)"
    unfolding keyb two_saves by simp
  have len: "length (sessions ?st) = 2"
    by (simp add: two_saves)
  from save_bounded_store [of 2 ?st "[Save session_a, Save session_b]" _ session_c] new len
  obtain k0 v0 where mem: "(k0, v0) \<in> set (sessions ?st)"
    and least: "\<forall>(k, v)\<in>set (sessions ?st). updated_at v0 \<le> updated_at v"
    and sv: "save ?st session_c = Inr (?st\<lparr>sessions := AList.delete k0 (sessions ?st)
        @ [(make_key (session_id session_c) (product session_c), session_c)]\<rparr>)"
    by auto
  from least have "updated_at v0 \<le> updated_at session_a"
    unfolding two_saves by simp
  moreover from mem have "(k0, v0) = (''chatbot:a'', session_a) \<or> (k0, v0) = (''chatbot:b'', session_b)"
    unfolding two_saves by simp
  moreover have "\<not> updated_at session_b \<le> updated_at session_a"
    by (simp add: session_a_def session_b_def)
  ultimately have "k0 = ''chatbot:a''"
    by auto
  with sv have evict: "save ?st session_c
       = Inr \<lparr>sessions = [(''chatbot:b'', session_b), (''chatbot:c'', session_c)],
              max_sessions = 2\<rparr>"
    unfolding keyc two_saves by simp
  from save_bounded_store [of 2 ?st "[Save session_a, Save session_b]" _ session_b] old
  have "save ?st session_b = Inr (?st\<lparr>sessions :=
      AList.update (make_key (session_id session_b) (product session_b)) session_b
        (sessions ?st)\<rparr>)"
    by simp
  then have keep: "save ?st session_b
       = Inr \<lparr>sessions = [(''chatbot:a'', session_a), (''chatbot:b'', session_b)],
              max_sessions = 2\<rparr>"
    unfolding keyb two_saves by simp
  from new old len evict keep show ?thesis by simp
qed

section \<open>Properties of the Redis session store\<close>

subsection \<open>ISO 8601 text\<close>

lemma length_pad [simp]: "length (pad w n) = w"
  by (induction w arbitrary: n) auto

lemma digit_val_digit_char: "d < 10 \<Longrightarrow> digit_val (digit_char d) = Some d"
  by (simp add: digit_val_def digit_char_def Let_def)

lemma all_digits_pad: "list_all (\<lambda>c. digit_val c \<noteq> None) (pad w n)"
  by (induction w arbitrary: n) (auto simp: digit_val_digit_char)

lemma value_pad:
  "foldl (\<lambda>a c. 10 * a + the (digit_val c)) 0 (pad w n) = n mod 10 ^ w"
proof (induction w arbitrary: n)
  case 0
  then show ?case by simp
next
  case (Suc w)
  have "n mod (10 * 10 ^ w) = 10 * (n div 10 mod 10 ^ w) + n mod 10"
    by (simp add: mod_mult2_eq)
  with Suc show ?case
    by (simp add: digit_val_digit_char)
qed

lemma number_pad: "0 < w \<Longrightarrow> n < 10 ^ w \<Longrightarrow> number (pad w n) = Some n"
proof -
  assume w: "0 < w" and n: "n < 10 ^ w"
  from w have ne: "pad w n \<noteq> []"
    by (metis length_pad length_0_conv less_numeral_extra(3))
  have "number (pad w n) = Some (foldl (\<lambda>a c. 10 * a + the (digit_val c)) 0 (pad w n))"
    by (simp only: number_def ne all_digits_pad simp_thms if_True)
  with n show ?thesis
    by (simp add: value_pad)
qed

lemma fromisoformat_isoformat:
  assumes "valid_datetime dt"
  shows "fromisoformat (isoformat dt) = Some dt"
proof -
  obtain y mo d h mi s us where dt: "dt = (y, mo, d, h, mi, s, us)"
    by (metis prod_cases7)
  from assms dt have r: "y < 10 ^ 4" "mo < 10 ^ 2" "d < 10 ^ 2" "h < 10 ^ 2" "mi < 10 ^ 2"
    "s < 10 ^ 2" "us < 10 ^ 6"
    by simp_all
  have n: "number (pad 4 y) = Some y" "number (pad 2 mo) = Some mo"
    "number (pad 2 d) = Some d" "number (pad 2 h) = Some h" "number (pad 2 mi) = Some mi"
    "number (pad 2 s) = Some s" "number (pad 6 us) = Some us"
    using r by (simp_all only: number_pad zero_less_numeral)
  show ?thesis
  proof (cases "us = 0")
    case True
    with assms dt n show ?thesis
      by (simp add: fromisoformat_def nth_append del: pad.simps)
  next
    case False
    with assms dt n show ?thesis
      by (simp add: fromisoformat_def nth_append del: pad.simps)
  qed
qed

subsection \<open>Metadata through JSON\<close>

lemma those_map_Some:
  "(\<And>x. x \<in> set xs \<Longrightarrow> f x = Some (g x)) \<Longrightarrow> those (map f xs) = Some (map g xs)"
  by (induction xs) auto

lemma foldl_update_distinct:
  "distinct (map fst (acc @ kvs)) \<Longrightarrow>
    foldl (\<lambda>acc kv. AList.update (fst kv) (snd kv) acc) acc kvs = acc @ kvs"
proof (induction kvs arbitrary: acc)
  case Nil
  then show ?case by simp
next
  case (Cons kv kvs)
  from Cons.prems have "fst kv \<notin> fst ` set acc" by auto
  then have "AList.update (fst kv) (snd kv) acc = acc @ [kv]"
    by (simp add: update_absent)
  moreover from Cons.prems have "distinct (map fst ((acc @ [kv]) @ kvs))" by simp
  ultimately show ?case
    using Cons.IH [of "acc @ [kv]"] by simp
qed

lemma json_roundtrip:
  "json_native v \<Longrightarrow> to_json v = Some (the (to_json v)) \<and> of_json (the (to_json v)) = v"
proof (induction v)
  case (PList xs)
  have each: "to_json x = Some (the (to_json x))" "of_json (the (to_json x)) = x"
    if "x \<in> set xs" for x
    using PList that by (auto simp: list_all_iff)
  have "those (map to_json xs) = Some (map (\<lambda>x. the (to_json x)) xs)"
    using each(1) by (rule those_map_Some)
  moreover have "map (\<lambda>x. of_json (the (to_json x))) xs = xs"
    using each(2) by (simp add: map_idI)
  ultimately show ?case by (simp add: comp_def)
next
  case (PDict kvs)
  let ?ks = "\<lambda>kv. case fst kv of PStr k \<Rightarrow> k | _ \<Rightarrow> []"
  let ?h = "\<lambda>kv. (?ks kv, the (to_json (snd kv)))"
  from PDict.prems have d: "distinct (map fst kvs)" by simp
  have key: "fst kv = PStr (?ks kv)" if "kv \<in> set kvs" for kv
    using PDict.prems that by (auto simp: list_all_iff split: pyval.splits)
  have val: "to_json (snd kv) = Some (the (to_json (snd kv)))"
    "of_json (the (to_json (snd kv))) = snd kv" if "kv \<in> set kvs" for kv
  proof -
    from PDict.prems that have "json_native (snd kv)" by (auto simp: list_all_iff)
    moreover have "snd kv \<in> Basic_BNFs.snds kv" by (cases kv) simp
    ultimately show "to_json (snd kv) = Some (the (to_json (snd kv)))"
      "of_json (the (to_json (snd kv))) = snd kv"
      using PDict.IH that by blast+
  qed
  have "(case (key_str (fst kv), to_json (snd kv)) of
          (Some k, Some j) \<Rightarrow> Some (k, j) | _ \<Rightarrow> None) = Some (?h kv)"
    if "kv \<in> set kvs" for kv
    using key [OF that] val(1) [OF that] by (metis (mono_tags, lifting) key_str.simps(1)
        old.prod.case option.simps(5))
  then have enc: "those (map (\<lambda>kv. case (key_str (fst kv), to_json (snd kv)) of
          (Some k, Some j) \<Rightarrow> Some (k, j) | _ \<Rightarrow> None) kvs) = Some (map ?h kvs)"
    by (rule those_map_Some)
  have "foldl (\<lambda>acc kv. AList.update (PStr (fst kv)) (of_json (snd kv)) acc) [] (map ?h kvs)
      = foldl (\<lambda>acc kv. AList.update (PStr (?ks kv)) (of_json (the (to_json (snd kv)))) acc) [] kvs"
    by (simp add: foldl_map)
  also have "\<dots> = foldl (\<lambda>acc kv. AList.update (fst kv) (snd kv) acc) [] kvs"
    by (rule foldl_cong) (simp_all add: key [symmetric] val(2))
  also have "\<dots> = kvs"
    using foldl_update_distinct [of "[]" kvs] d by simp
  finally show ?case
    using enc by simp
qed simp_all

lemma ProductType_of_value: "ProductType_of (product_value p) = Some p"
  by (cases p) (simp_all add: ProductType_of_def)

lemma message_roundtrip:
  "sequence_err (map message_of
      (map (\<lambda>m. JObj [(''role'', JStr (role m)), (''content'', JStr (content m))]) ms))
    = Inr ms"
  by (induction ms)
    (auto simp: message_of_def bind_err_def str_field_def field_def)

lemma message_roundtrip_comp:
  "sequence_err (map (message_of \<circ>
      (\<lambda>m. JObj [(''role'', JStr (role m)), (''content'', JStr (content m))])) ms)
    = Inr ms"
  using message_roundtrip [of ms] by (simp only: map_map)

subsection \<open>Save, get and delete\<close>

lemma get_save:
  assumes "save st s = Inr st'"
  shows "get st' (session_id s) (product s) = Some s"
  using assms
  by (auto simp: save_def get_def Let_def update_conv' split: if_splits option.splits)

lemma save_succeeds:
  assumes "1 \<le> N"
  shows "\<exists>st'. save (run (new_InMemorySessionStorage N) ops) s = Inr st'"
  using store_inv_save [OF store_inv_run [OF assms] assms] by blast

lemma delete_reports: "snd (delete st sid p) = (get st sid p \<noteq> None)"
  by (auto simp: delete_def get_def Let_def map_of_eq_None_iff)

lemma get_delete: "get (fst (delete st sid p)) sid p = None"
proof (cases "make_key sid p \<in> fst ` set (sessions st)")
  case True
  then show ?thesis
    by (simp add: delete_def get_def Let_def delete_conv')
next
  case False
  then show ?thesis
    by (simp add: delete_def get_def Let_def map_of_eq_None_iff)
qed

lemma serialize_Inr:
  assumes "to_json (PDict (metadata s)) = Some j"
  shows "serialize s = Inr (JObj
           [(''session_id'', JStr (session_id s)),
            (''product'', JStr (product_value (product s))),
            (''messages'',
               JArr (map (\<lambda>m. JObj [(''role'', JStr (role m)), (''content'', JStr (content m))])
                      (messages s))),
            (''created_at'', JStr (isoformat (created_at s))),
            (''updated_at'', JStr (isoformat (updated_at s))),
            (''metadata'', j)])"
  by (simp only: serialize_def assms option.case)

lemma of_json_dict:
  assumes "to_json (PDict kvs) = Some j"
  shows "\<exists>md. of_json j = PDict md"
  using assms by auto

lemma deserialize_serialize:
  assumes j: "to_json (PDict (metadata s)) = Some j" and md: "of_json j = PDict md"
    and c: "valid_datetime (created_at s)" and u: "valid_datetime (updated_at s)"
    and data: "serialize s = Inr data"
  shows "deserialize data = Inr (s\<lparr>metadata := md\<rparr>)"
proof -
  have "deserialize data =
      Inr \<lparr>session_id = session_id s, product = product s, messages = messages s,
           created_at = created_at s, updated_at = updated_at s, metadata = md\<rparr>"
    using data md
    unfolding serialize_Inr [OF j]
    by (auto simp: deserialize_def bind_err_def str_field_def field_def datetime_field_def
        ProductType_of_value message_roundtrip_comp fromisoformat_isoformat [OF c]
        fromisoformat_isoformat [OF u] simp del: isoformat.simps)
  then show ?thesis by simp
qed

lemma redis_roundtrip:
  assumes j: "to_json (PDict (metadata s)) = Some j" and md: "of_json j = PDict md"
    and c: "valid_datetime (created_at s)" and u: "valid_datetime (updated_at s)"
    and t: "0 < ttl st"
  shows "\<exists>st' data. redis_save st s = Inr st'
      \<and> db st' = (db st)(redis_make_key (session_id s) (product s) \<mapsto>
            \<lparr>payload = data, expires_in = ttl st\<rparr>)
      \<and> ttl st' = ttl st
      \<and> redis_get st' (session_id s) (product s) = Inr (Some (s\<lparr>metadata := md\<rparr>))"
proof -
  obtain data where data: "serialize s = Inr data"
    using serialize_Inr [OF j] by blast
  let ?st' = "st\<lparr>db := (db st)(redis_make_key (session_id s) (product s) \<mapsto>
            \<lparr>payload = data, expires_in = ttl st\<rparr>)\<rparr>"
  have sv: "redis_save st s = Inr ?st'"
    using data t by (simp add: redis_save_def setex_def)
  have "redis_get ?st' (session_id s) (product s) = Inr (Some (s\<lparr>metadata := md\<rparr>))"
    by (simp add: redis_get_def bind_err_def deserialize_serialize [OF j md c u data])
  with sv show ?thesis by auto
qed

lemma redis_delete_reports:
  "snd (redis_delete st sid p) = (db st (redis_make_key sid p) \<noteq> None)"
  by (simp add: redis_delete_def Let_def)

lemma redis_get_delete: "redis_get (fst (redis_delete st sid p)) sid p = Inr None"
  by (simp add: redis_delete_def redis_get_def Let_def)

subsection \<open>Overwriting and \<open>updated_at\<close>\<close>

lemma get_save_other:
  assumes present: "make_key (session_id s) (product s) \<in> fst ` set (sessions st)"
    and sv: "save st s = Inr st'"
    and other: "make_key sid p \<noteq> make_key (session_id s) (product s)"
  shows "get st' sid p = get st sid p"
proof -
  from sv save_present [OF present]
  have "sessions st' = AList.update (make_key (session_id s) (product s)) s (sessions st)"
    by auto
  with other show ?thesis
    by (simp add: get_def update_conv')
qed

text \<open>
  C4, as the code has it. For both stores \<open>save(session)\<close> replaces whatever is stored
  under the session's (product, id) key by the session as given: a \<open>get\<close> returns it with
  the \<open>updated_at\<close> it was saved with, and (when the key was present) the other keys of
  the in-memory store are as before; in Redis the other keys are as before and the entry's
  time to live is set to the TTL again. \<open>save\<close> does not set \<open>updated_at\<close>; only
  \<open>add_message\<close> does, to the current time.
\<close>

theorem save_overwrites_keeps_updated_at:
  assumes cap: "1 \<le> N" and mem: "mem = run (new_InMemorySessionStorage N) ops"
    and t: "0 < ttl rds"
    and c: "valid_datetime (created_at s)" and u: "valid_datetime (updated_at s)"
    and j: "to_json (PDict (metadata s)) = Some j"
  shows "(\<exists>mem'. save mem s = Inr mem'
            \<and> get mem' (session_id s) (product s) = Some s
            \<and> map_option updated_at (get mem' (session_id s) (product s)) = Some (updated_at s)
            \<and> (make_key (session_id s) (product s) \<in> fst ` set (sessions mem) \<longrightarrow>
                 (\<forall>sid p. make_key sid p \<noteq> make_key (session_id s) (product s) \<longrightarrow>
                    get mem' sid p = get mem sid p)))
    \<and> (\<exists>rds' s'. redis_save rds s = Inr rds'
            \<and> redis_get rds' (session_id s) (product s) = Inr (Some s')
            \<and> updated_at s' = updated_at s
            \<and> (\<forall>k. k \<noteq> redis_make_key (session_id s) (product s) \<longrightarrow> db rds' k = db rds k)
            \<and> map_option expires_in (db rds' (redis_make_key (session_id s) (product s)))
                = Some (ttl rds))
    \<and> updated_at (add_message now s m) = now
    \<and> messages (add_message now s m) = messages s @ [m]"
proof -
  obtain mem' where sv: "save mem s = Inr mem'"
    using save_succeeds [OF cap, of ops s] mem by auto
  have g: "get mem' (session_id s) (product s) = Some s"
    using sv by (rule get_save)
  have 1: "\<exists>mem'. save mem s = Inr mem'
            \<and> get mem' (session_id s) (product s) = Some s
            \<and> map_option updated_at (get mem' (session_id s) (product s)) = Some (updated_at s)
            \<and> (make_key (session_id s) (product s) \<in> fst ` set (sessions mem) \<longrightarrow>
                 (\<forall>sid p. make_key sid p \<noteq> make_key (session_id s) (product s) \<longrightarrow>
                    get mem' sid p = get mem sid p))"
    using sv g get_save_other [OF _ sv] by auto
  obtain md where md: "of_json j = PDict md"
    using of_json_dict [OF j] by blast
  from redis_roundtrip [OF j md c u t] obtain rds' data
    where rs: "redis_save rds s = Inr rds'"
      and d: "db rds' = (db rds)(redis_make_key (session_id s) (product s) \<mapsto>
            \<lparr>payload = data, expires_in = ttl rds\<rparr>)"
      and rg: "redis_get rds' (session_id s) (product s) = Inr (Some (s\<lparr>metadata := md\<rparr>))"
    by blast
  have 2: "\<exists>rds' s'. redis_save rds s = Inr rds'
            \<and> redis_get rds' (session_id s) (product s) = Inr (Some s')
            \<and> updated_at s' = updated_at s
            \<and> (\<forall>k. k \<noteq> redis_make_key (session_id s) (product s) \<longrightarrow> db rds' k = db rds k)
            \<and> map_option expires_in (db rds' (redis_make_key (session_id s) (product s)))
                = Some (ttl rds)"
    using rs rg d by (intro exI [of _ rds'] exI [of _ "s\<lparr>metadata := md\<rparr>"]) simp
  from 1 2 show ?thesis
    by (simp add: add_message_def)
qed

theorem save_overwrites_keeps_updated_at_witness:
  "(1 :: int) \<le> 2 \<and> 0 < ttl (new_RedisSessionStorage 86400)
   \<and> valid_datetime (created_at session_b_stale) \<and> valid_datetime (updated_at session_b_stale)
   \<and> to_json (PDict (metadata session_b_stale)) = Some (JObj [])
   \<and> (case save (run (new_InMemorySessionStorage 2) [Save session_a, Save session_b])
            session_b_stale of
         Inl e \<Rightarrow> False
       | Inr mem' \<Rightarrow>
           get mem' ''b'' CHATBOT = Some session_b_stale
           \<and> get mem' ''a'' CHATBOT = Some session_a)
   \<and> (case redis_save (new_RedisSessionStorage 86400) session_b_stale of
         Inl e \<Rightarrow> False
       | Inr rds' \<Rightarrow>
           (case redis_get rds' ''b'' CHATBOT of
              Inr (Some s') \<Rightarrow> updated_at s' = (2025, 1, 1, 8, 0, 0, 0)
            | _ \<Rightarrow> False))
   \<and> updated_at (add_message (2025, 1, 4, 0, 0, 0, 0) session_b_stale
         \<lparr>role = ''user'', content = ''Hi''\<rparr>) = (2025, 1, 4, 0, 0, 0, 0)"
proof -
  let ?mem = "run (new_InMemorySessionStorage 2) [Save session_a, Save session_b]"
  let ?rds = "new_RedisSessionStorage 86400"
  have cap: "(1 :: int) \<le> 2" by simp
  have t: "0 < ttl ?rds" by (simp add: new_RedisSessionStorage_def)
  have c: "valid_datetime (created_at session_b_stale)"
    by (simp add: session_b_stale_def session_b_def)
  have u: "valid_datetime (updated_at session_b_stale)"
    by (simp add: session_b_stale_def)
  have j: "to_json (PDict (metadata session_b_stale)) = Some (JObj [])"
    by (simp add: session_b_stale_def session_b_def)
  have sid: "session_id session_b_stale = ''b''" "product session_b_stale = CHATBOT"
    "updated_at session_b_stale = (2025, 1, 1, 8, 0, 0, 0)"
    by (simp_all add: session_b_stale_def session_b_def)
  have key: "make_key ''b'' CHATBOT \<in> fst ` set (sessions ?mem)"
    "make_key ''a'' CHATBOT \<noteq> make_key ''b'' CHATBOT"
    "get ?mem ''a'' CHATBOT = Some session_a"
    unfolding two_saves by (simp_all add: make_key_def get_def)
  note th = save_overwrites_keeps_updated_at [OF cap refl t c u j,
      of "[Save session_a, Save session_b]"]
  from th obtain mem' where "save ?mem session_b_stale = Inr mem'"
    and "get mem' ''b'' CHATBOT = Some session_b_stale"
    and "get mem' ''a'' CHATBOT = get ?mem ''a'' CHATBOT"
    using key(1,2) unfolding sid by blast
  then have 1: "(case save ?mem session_b_stale of
         Inl e \<Rightarrow> False
       | Inr mem' \<Rightarrow>
           get mem' ''b'' CHATBOT = Some session_b_stale
           \<and> get mem' ''a'' CHATBOT = Some session_a)"
    using key(3) by simp
  from th obtain rds' s' where "redis_save ?rds session_b_stale = Inr rds'"
    and "redis_get rds' ''b'' CHATBOT = Inr (Some s')"
    and "updated_at s' = (2025, 1, 1, 8, 0, 0, 0)"
    unfolding sid by blast
  then have 2: "(case redis_save ?rds session_b_stale of
         Inl e \<Rightarrow> False
       | Inr rds' \<Rightarrow>
           (case redis_get rds' ''b'' CHATBOT of
              Inr (Some s') \<Rightarrow> updated_at s' = (2025, 1, 1, 8, 0, 0, 0)
            | _ \<Rightarrow> False))"
    by simp
  from th have 3: "updated_at (add_message (2025, 1, 4, 0, 0, 0, 0) session_b_stale
         \<lparr>role = ''user'', content = ''Hi''\<rparr>) = (2025, 1, 4, 0, 0, 0, 0)"
    by blast
  from cap t c u j 1 2 3 show ?thesis by simp
qed

text \<open>
  C4 as stated fails: \<open>save\<close> stores the \<open>updated_at\<close> it is given, so saving an older
  state of session \<open>b\<close> over a newer one lowers the stored \<open>updated_at\<close>.
\<close>

theorem save_lowers_updated_at:
  "save (new_InMemorySessionStorage 2) session_b
     = Inr \<lparr>sessions = [(''chatbot:b'', session_b)], max_sessions = 2\<rparr>
   \<and> get \<lparr>sessions = [(''chatbot:b'', session_b)], max_sessions = 2\<rparr> ''b'' CHATBOT
     = Some session_b
   \<and> save \<lparr>sessions = [(''chatbot:b'', session_b)], max_sessions = 2\<rparr> session_b_stale
     = Inr \<lparr>sessions = [(''chatbot:b'', session_b_stale)], max_sessions = 2\<rparr>
   \<and> get \<lparr>sessions = [(''chatbot:b'', session_b_stale)], max_sessions = 2\<rparr> ''b'' CHATBOT
     = Some session_b_stale
   \<and> updated_at session_b_stale < updated_at session_b"
proof -
  have k: "make_key (session_id session_b) (product session_b) = ''chatbot:b''"
    "make_key (session_id session_b_stale) (product session_b_stale) = ''chatbot:b''"
    "make_key ''b'' CHATBOT = ''chatbot:b''"
    by (simp_all add: make_key_def session_b_stale_def session_b_def)
  have lt: "updated_at session_b_stale < updated_at session_b"
    by (simp add: session_b_stale_def session_b_def)
  show ?thesis
    using lt by (simp add: save_def get_def k new_InMemorySessionStorage_def)
qed

subsection \<open>Round trip\<close>

text \<open>
  C9, as the code has it. In-memory store of capacity \<open>N \<ge> 1\<close>, in any state reached
  from the empty store: \<open>save(s)\<close> then \<open>get(s.session_id, s.product)\<close> returns \<open>s\<close>.
  Redis store with a positive TTL: \<open>save(s)\<close> succeeds whenever \<open>json.dumps\<close> accepts
  the metadata, and \<open>get\<close> then returns \<open>s\<close> with the metadata as \<open>json.loads\<close> reads
  it back; that is \<open>s\<close> itself, field for field, when the metadata holds only \<open>None\<close>,
  booleans, integers, strings, lists and dicts with distinct string keys. For both
  stores \<open>delete\<close> returns true exactly when the key is present, and a \<open>get\<close> after it
  returns nothing.
\<close>

theorem session_roundtrip:
  assumes cap: "1 \<le> N" and mem: "mem = run (new_InMemorySessionStorage N) ops"
    and t: "0 < ttl rds"
    and c: "valid_datetime (created_at s)" and u: "valid_datetime (updated_at s)"
  shows "(\<exists>mem'. save mem s = Inr mem' \<and> get mem' (session_id s) (product s) = Some s)
    \<and> snd (delete mem sid p) = (get mem sid p \<noteq> None)
    \<and> get (fst (delete mem sid p)) sid p = None
    \<and> (\<forall>j. to_json (PDict (metadata s)) = Some j \<longrightarrow>
          (\<exists>rds' md. redis_save rds s = Inr rds' \<and> of_json j = PDict md
             \<and> redis_get rds' (session_id s) (product s) = Inr (Some (s\<lparr>metadata := md\<rparr>))))
    \<and> (json_native (PDict (metadata s)) \<longrightarrow>
          (\<exists>rds'. redis_save rds s = Inr rds'
             \<and> redis_get rds' (session_id s) (product s) = Inr (Some s)))
    \<and> snd (redis_delete rds sid p) = (db rds (redis_make_key sid p) \<noteq> None)
    \<and> redis_get (fst (redis_delete rds sid p)) sid p = Inr None"
proof -
  obtain mem' where sv: "save mem s = Inr mem'"
    using save_succeeds [OF cap, of ops s] mem by auto
  then have 1: "\<exists>mem'. save mem s = Inr mem' \<and> get mem' (session_id s) (product s) = Some s"
    using get_save by blast
  have 2: "\<exists>rds' md. redis_save rds s = Inr rds' \<and> of_json j = PDict md
             \<and> redis_get rds' (session_id s) (product s) = Inr (Some (s\<lparr>metadata := md\<rparr>))"
    if j: "to_json (PDict (metadata s)) = Some j" for j
  proof -
    obtain md where md: "of_json j = PDict md"
      using of_json_dict [OF j] by blast
    from redis_roundtrip [OF j md c u t] md show ?thesis by blast
  qed
  have 3: "\<exists>rds'. redis_save rds s = Inr rds'
             \<and> redis_get rds' (session_id s) (product s) = Inr (Some s)"
    if n: "json_native (PDict (metadata s))"
  proof -
    from json_roundtrip [OF n]
    have j: "to_json (PDict (metadata s)) = Some (the (to_json (PDict (metadata s))))"
      and md: "of_json (the (to_json (PDict (metadata s)))) = PDict (metadata s)"
      by simp_all
    from redis_roundtrip [OF j md c u t] show ?thesis by auto
  qed
  from 1 2 3 show ?thesis
    by (simp add: delete_reports get_delete redis_delete_reports redis_get_delete)
qed

lemma save_third:
  "save \<lparr>sessions = [(''chatbot:a'', session_a), (''chatbot:b'', session_b)], max_sessions = 2\<rparr>
      session_c
    = Inr \<lparr>sessions = [(''chatbot:b'', session_b), (''chatbot:c'', session_c)],
           max_sessions = 2\<rparr>"
proof -
  have "make_key (session_id session_c) (product session_c) = ''chatbot:c''"
    by (simp add: make_key_def session_c_def)
  moreover have "updated_at session_a < updated_at session_b"
    by (simp add: session_a_def session_b_def)
  ultimately show ?thesis
    by (simp add: save_def)
qed

theorem session_roundtrip_witness:
  "(1 :: int) \<le> 2 \<and> 0 < ttl (new_RedisSessionStorage 86400)
   \<and> valid_datetime (created_at session_c) \<and> valid_datetime (updated_at session_c)
   \<and> json_native (PDict (metadata session_c))
   \<and> get \<lparr>sessions = [(''chatbot:b'', session_b), (''chatbot:c'', session_c)],
           max_sessions = 2\<rparr> ''c'' CHATBOT = Some session_c
   \<and> (case redis_save (new_RedisSessionStorage 86400) session_c of
         Inl e \<Rightarrow> False
       | Inr rds' \<Rightarrow> redis_get rds' ''c'' CHATBOT = Inr (Some session_c))
   \<and> snd (delete (run (new_InMemorySessionStorage 2) [Save session_a, Save session_b])
         ''a'' CHATBOT)
   \<and> get (fst (delete (run (new_InMemorySessionStorage 2) [Save session_a, Save session_b])
         ''a'' CHATBOT)) ''a'' CHATBOT = None
   \<and> \<not> snd (redis_delete (new_RedisSessionStorage 86400) ''c'' CHATBOT)"
proof -
  let ?mem = "run (new_InMemorySessionStorage 2) [Save session_a, Save session_b]"
  let ?rds = "new_RedisSessionStorage 86400"
  have cap: "(1 :: int) \<le> 2" by simp
  have t: "0 < ttl ?rds" by (simp add: new_RedisSessionStorage_def)
  have c: "valid_datetime (created_at session_c)" by (simp add: session_c_def)
  have u: "valid_datetime (updated_at session_c)" by (simp add: session_c_def)
  have n: "json_native (PDict (metadata session_c))" by (simp add: session_c_def)
  have sid: "session_id session_c = ''c''" "product session_c = CHATBOT"
    by (simp_all add: session_c_def)
  note rt = session_roundtrip [OF cap refl t c u, of "[Save session_a, Save session_b]"
      "''a''" CHATBOT]
  from rt obtain mem' where "save ?mem session_c = Inr mem'"
    and g: "get mem' (session_id session_c) (product session_c) = Some session_c"
    by blast
  then have "mem' = \<lparr>sessions = [(''chatbot:b'', session_b), (''chatbot:c'', session_c)],
           max_sessions = 2\<rparr>"
    by (simp add: two_saves save_third)
  with g sid have 1: "get \<lparr>sessions = [(''chatbot:b'', session_b), (''chatbot:c'', session_c)],
           max_sessions = 2\<rparr> ''c'' CHATBOT = Some session_c"
    by simp
  from rt n obtain rds' where "redis_save ?rds session_c = Inr rds'"
    and "redis_get rds' (session_id session_c) (product session_c) = Inr (Some session_c)"
    by blast
  with sid have 2: "(case redis_save ?rds session_c of
         Inl e \<Rightarrow> False
       | Inr rds' \<Rightarrow> redis_get rds' ''c'' CHATBOT = Inr (Some session_c))"
    by simp
  have "get ?mem ''a'' CHATBOT \<noteq> None"
    unfolding two_saves by (simp add: get_def make_key_def)
  with rt have 3: "snd (delete ?mem ''a'' CHATBOT)"
    and 4: "get (fst (delete ?mem ''a'' CHATBOT)) ''a'' CHATBOT = None"
    by simp_all
  have "db ?rds (redis_make_key ''c'' CHATBOT) = None"
    by (simp add: new_RedisSessionStorage_def)
  with session_roundtrip [OF cap refl t c u, of "[Save session_a, Save session_b]"
      "''c''" CHATBOT]
  have 5: "\<not> snd (redis_delete ?rds ''c'' CHATBOT)"
    by simp
  from cap t c u n 1 2 3 4 5 show ?thesis by simp
qed

text \<open>
  C9 as stated fails for the Redis store: a session whose metadata holds a tuple comes
  back with a list in its place.
\<close>

theorem redis_roundtrip_changes_tuple:
  "(case redis_save (new_RedisSessionStorage 86400) session_t of
      Inl e \<Rightarrow> False
    | Inr rds' \<Rightarrow>
        redis_get rds' (session_id session_t) (product session_t)
          = Inr (Some (session_t\<lparr>metadata := [(PStr ''tags'', PList [PStr ''vip''])]\<rparr>))
        \<and> redis_get rds' (session_id session_t) (product session_t)
          \<noteq> Inr (Some session_t))"
proof -
  have j: "to_json (PDict (metadata session_t))
      = Some (JObj [(''tags'', JArr [JStr ''vip''])])"
    by (simp add: session_t_def)
  have md: "of_json (JObj [(''tags'', JArr [JStr ''vip''])])
      = PDict [(PStr ''tags'', PList [PStr ''vip''])]"
    by simp
  have c: "valid_datetime (created_at session_t)"
    and u: "valid_datetime (updated_at session_t)"
    by (simp_all add: session_t_def session_a_def)
  have t: "0 < ttl (new_RedisSessionStorage 86400)"
    by (simp add: new_RedisSessionStorage_def)
  from redis_roundtrip [OF j md c u t] obtain rds'
    where sv: "redis_save (new_RedisSessionStorage 86400) session_t = Inr rds'"
      and g: "redis_get rds' (session_id session_t) (product session_t)
        = Inr (Some (session_t\<lparr>metadata := [(PStr ''tags'', PList [PStr ''vip''])]\<rparr>))"
    by blast
  have "metadata (session_t\<lparr>metadata := [(PStr ''tags'', PList [PStr ''vip''])]\<rparr>)
      \<noteq> metadata session_t"
    by (simp add: session_t_def)
  then have "session_t\<lparr>metadata := [(PStr ''tags'', PList [PStr ''vip''])]\<rparr> \<noteq> session_t"
    by metis
  with sv g show ?thesis by simp
qed

section \<open>Properties of the provider registry\<close>

lemma chain_loop_map_filter:
  "chain_loop st names acc = acc @ List.map_filter (\<lambda>n. create_provider n st) names"
  by (induction names arbitrary: acc) (auto simp: map_filter_simps split: option.splits)

lemma create_provider_kept:
  "map_option client_name (create_provider n st) = kept st n"
  by (auto simp: create_provider_def kept_def named_def Let_def)

lemma create_provider_fields:
  assumes "create_provider n st = Some c"
  shows "kept st n = Some (client_name c)
    \<and> c = (case client_name c of
             GROQ \<Rightarrow> GroqClient | GEMINI \<Rightarrow> GeminiClient | _ \<Rightarrow> OpenAIClient)
           (the (credential st (client_name c))) (configured_model st (client_name c))"
  using assms
  by (auto simp: create_provider_def kept_def named_def Let_def split: if_splits)

text \<open>
  C8, as the code has it. The chain holds one client for each identifier of the
  configured order that, lower-cased, names Groq, Gemini or OpenAI and whose API key is
  set and not empty, in the configured order; every other identifier (``anthropic'' and
  unknown names included, whatever keys are set) is skipped without error. Each client
  is built from its provider's key and model.
\<close>

theorem create_provider_chain_kept:
  "map client_name (create_provider_chain st) = List.map_filter (kept st) (provider_order st)
   \<and> (\<forall>c \<in> set (create_provider_chain st).
        has_client (client_name c) \<and> truthy (credential st (client_name c))
        \<and> c = (case client_name c of
                 GROQ \<Rightarrow> GroqClient | GEMINI \<Rightarrow> GeminiClient | _ \<Rightarrow> OpenAIClient)
               (the (credential st (client_name c))) (configured_model st (client_name c)))
   \<and> (\<forall>n. named (lower n) = Some ANTHROPIC \<or> named (lower n) = None \<longrightarrow>
        create_provider n st = None)"
proof -
  have "map client_name (List.map_filter (\<lambda>n. create_provider n st) names)
      = List.map_filter (kept st) names" for names
    by (induction names)
      (auto simp: map_filter_simps create_provider_kept [symmetric] split: option.splits)
  then have 1: "map client_name (create_provider_chain st)
      = List.map_filter (kept st) (provider_order st)"
    by (simp add: create_provider_chain_def chain_loop_map_filter)
  have 2: "has_client (client_name c) \<and> truthy (credential st (client_name c))
        \<and> c = (case client_name c of
                 GROQ \<Rightarrow> GroqClient | GEMINI \<Rightarrow> GeminiClient | _ \<Rightarrow> OpenAIClient)
               (the (credential st (client_name c))) (configured_model st (client_name c))"
    if "c \<in> set (create_provider_chain st)" for c
  proof -
    from that obtain n where n: "create_provider n st = Some c"
      by (auto simp: create_provider_chain_def chain_loop_map_filter map_filter_def)
    from create_provider_fields [OF n]
    have k: "kept st n = Some (client_name c)"
      and f: "c = (case client_name c of
                   GROQ \<Rightarrow> GroqClient | GEMINI \<Rightarrow> GeminiClient | _ \<Rightarrow> OpenAIClient)
                 (the (credential st (client_name c))) (configured_model st (client_name c))"
      by simp_all
    from k have "has_client (client_name c) \<and> truthy (credential st (client_name c))"
      by (auto simp: kept_def split: option.splits if_splits)
    with f show ?thesis by simp
  qed
  have 3: "create_provider n st = None"
    if "named (lower n) = Some ANTHROPIC \<or> named (lower n) = None" for n
  proof -
    from that have "kept st n = None"
      by (auto simp: kept_def)
    then show ?thesis
      using create_provider_kept [of n st] by simp
  qed
  from 1 2 3 show ?thesis by blast
qed

lemma mixed_order:
  "provider_order mixed_settings = [''openai'', ''gemini'', ''anthropic'', ''mistral'', ''groq'']"
  by (simp add: provider_order_def mixed_settings_def default_settings_def strip_def lower_def
      lower_char_def is_space_def)

theorem create_provider_chain_kept_witness:
  "create_provider_chain mixed_settings
     = [OpenAIClient ''sk'' ''gpt-4o-mini'', GroqClient ''gsk'' ''llama-3.3-70b-versatile'']
   \<and> map client_name (create_provider_chain mixed_settings) = [OPENAI, GROQ]
   \<and> named (lower ''anthropic'') = Some ANTHROPIC
   \<and> create_provider ''anthropic'' mixed_settings = None"
proof -
  note th = create_provider_chain_kept [of mixed_settings]
  have chain: "create_provider_chain mixed_settings
     = [OpenAIClient ''sk'' ''gpt-4o-mini'', GroqClient ''gsk'' ''llama-3.3-70b-versatile'']"
    unfolding create_provider_chain_def mixed_order
    by (simp add: create_provider_def mixed_settings_def default_settings_def truthy_def
        lower_def lower_char_def)
  have a: "named (lower ''anthropic'') = Some ANTHROPIC"
    by (simp add: named_def lower_def lower_char_def)
  from th a have none: "create_provider ''anthropic'' mixed_settings = None"
    by blast
  have "List.map_filter (kept mixed_settings) (provider_order mixed_settings) = [OPENAI, GROQ]"
    unfolding mixed_order
    by (simp add: map_filter_simps kept_def named_def mixed_settings_def default_settings_def
        truthy_def lower_def lower_char_def)
  with th have names: "map client_name (create_provider_chain mixed_settings) = [OPENAI, GROQ]"
    by simp
  from chain names a none show ?thesis by simp
qed

text \<open>
  C8 as stated fails for Anthropic: with the Anthropic key set and ``anthropic'' in the
  order, the chain holds no client for it.
\<close>

theorem anthropic_key_gives_no_client:
  "provider_order anthropic_only = [''anthropic'']
   \<and> named ''anthropic'' = Some ANTHROPIC
   \<and> truthy (credential anthropic_only ANTHROPIC)
   \<and> create_provider_chain anthropic_only = []"
proof -
  have o: "provider_order anthropic_only = [''anthropic'']"
    by (simp add: provider_order_def anthropic_only_def default_settings_def strip_def lower_def
        lower_char_def is_space_def)
  have "create_provider_chain anthropic_only = []"
    unfolding create_provider_chain_def o
    by (simp add: create_provider_def lower_def lower_char_def)
  with o show ?thesis
    by (simp add: named_def truthy_def anthropic_only_def)
qed

section \<open>Properties of the health check\<close>

text \<open>What the health check returns, given what each probe comes to; when the probes run
  and the length of the timeout are outside the model.\<close>

lemma health_status_healthy:
  "health_status m = ''healthy'' \<longleftrightarrow> (\<exists>n. (n, True) \<in> set m)"
  by (auto simp: health_status_def Let_def list_ex_iff)

lemma health_status_degraded:
  "health_status m = ''degraded'' \<longleftrightarrow> \<not> (\<exists>n. (n, True) \<in> set m)"
  by (auto simp: health_status_def Let_def list_ex_iff)

lemma health_check_loop_keys:
  "fst ` set (foldl (\<lambda>results check. case check of
                               None \<Rightarrow> results
                             | Some (n, healthy) \<Rightarrow> AList.update n healthy results)
      acc checks) = fst ` set acc \<union> fst ` {kv. Some kv \<in> set checks}"
proof (induction checks arbitrary: acc)
  case Nil
  then show ?case by simp
next
  case (Cons c checks)
  show ?case
  proof (cases c)
    case None
    have "{kv. Some kv \<in> set (None # checks)} = {kv. Some kv \<in> set checks}"
      by simp
    with Cons [of acc] None show ?thesis by simp
  next
    case (Some nh)
    obtain n h where nh: "nh = (n, h)" by (cases nh)
    have "{kv. Some kv \<in> set (Some (n, h) # checks)}
        = insert (n, h) {kv. Some kv \<in> set checks}"
      by auto
    then have "fst ` {kv. Some kv \<in> set (Some (n, h) # checks)}
        = insert n (fst ` {kv. Some kv \<in> set checks})"
      by simp
    moreover have "fst ` set (AList.update n h acc) = insert n (fst ` set acc)"
      by (simp add: dom_update)
    ultimately show ?thesis
      using Cons [of "AList.update n h acc"] Some nh by simp
  qed
qed

lemma provider_value_inj: "provider_value a = provider_value b \<Longrightarrow> a = b"
  by (cases a; cases b) simp_all

lemma health_check_omits_raising:
  assumes "\<forall>pr. (n, pr) \<in> set ps \<longrightarrow> pr = Raises"
  shows "provider_value n \<notin> fst ` set (health_check ps)"
proof
  assume "provider_value n \<in> fst ` set (health_check ps)"
  then have "provider_value n \<in> fst ` {kv. Some kv \<in> set (map check_provider ps)}"
    unfolding health_check_def health_check_loop_keys by simp
  then obtain kv where "kv \<in> {kv. Some kv \<in> set (map check_provider ps)}"
    and k: "provider_value n = fst kv"
    by (rule imageE)
  then have "Some kv \<in> check_provider ` set ps"
    by simp
  then obtain mp where mp: "Some kv = check_provider mp" "mp \<in> set ps"
    by (rule imageE)
  obtain m pr where "mp = (m, pr)" by (cases mp)
  with mp k have m: "(m, pr) \<in> set ps"
    and c: "check_provider (m, pr) = Some (provider_value n, snd kv)"
    by (simp_all add: prod_eq_iff [of kv])
  from c have "pr \<noteq> Raises" by auto
  moreover from c have "provider_value m = provider_value n" by (cases pr) auto
  then have "m = n" by (rule provider_value_inj)
  ultimately show False using assms m by auto
qed

lemma health_check_example:
  "health_check [(GROQ, Answers True), (GEMINI, Times_out), (OPENAI, Raises)]
     = [(''groq'', True), (''gemini'', False)]
   \<and> health_status [(''groq'', True), (''gemini'', False)] = ''healthy''
   \<and> health_status (health_check [(GEMINI, Times_out), (OPENAI, Raises)]) = ''degraded''
   \<and> health_status (health_check []) = ''degraded''"
  by (simp add: health_check_def health_status_def Let_def)

subsection \<open>What the result map holds\<close>

lemma check_provider_recorded:
  "check_provider (n, pr) = map_option (\<lambda>h. (provider_value n, h)) (recorded pr)"
  by (cases pr) simp_all

lemma health_check_map_of:
  "map_of (health_check ps) = map_of (rev (List.map_filter check_provider ps))"
proof -
  let ?step = "\<lambda>results check. case check of
                               None \<Rightarrow> results
                             | Some (n, healthy) \<Rightarrow> AList.update n healthy results"
  have "map_of (foldl ?step acc (map check_provider qs)) k
      = (map_of acc ++ map_of (rev (List.map_filter check_provider qs))) k" for acc qs k
  proof (induction qs arbitrary: acc)
    case Nil
    then show ?case by (simp add: map_filter_simps)
  next
    case (Cons q qs)
    show ?case
    proof (cases "check_provider q")
      case None
      with Cons [of acc] show ?thesis by (simp add: map_filter_simps)
    next
      case (Some nh)
      obtain n h where nh: "nh = (n, h)" by (cases nh)
      have "foldl ?step acc (map check_provider (q # qs))
          = foldl ?step (AList.update n h acc) (map check_provider qs)"
        using Some nh by simp
      moreover have "List.map_filter check_provider (q # qs)
          = (n, h) # List.map_filter check_provider qs"
        using Some nh by (simp add: map_filter_simps)
      ultimately show ?thesis
        using Cons [of "AList.update n h acc"]
        by (simp add: map_add_def update_conv' split: option.splits)
    qed
  qed
  from this [of "[]" ps] show ?thesis
    by (simp add: health_check_def fun_eq_iff)
qed

lemma writes_of_raising:
  assumes "\<forall>q. (n, q) \<in> set ps \<longrightarrow> q = Raises"
  shows "map_of (rev (List.map_filter check_provider ps)) (provider_value n) = None"
proof -
  have "provider_value n \<notin> fst ` set (health_check ps)"
    using assms by (rule health_check_omits_raising)
  then have "map_of (health_check ps) (provider_value n) = None"
    by (simp add: map_of_eq_None_iff)
  then show ?thesis
    by (simp add: health_check_map_of)
qed

lemma last_write_wins:
  assumes ps: "ps = pre @ (n, pr) # post" and pr: "pr \<noteq> Raises"
    and post: "\<forall>q. (n, q) \<in> set post \<longrightarrow> q = Raises"
  shows "map_of (health_check ps) (provider_value n) = recorded pr"
proof -
  from pr obtain h where h: "recorded pr = Some h"
    by (cases pr) auto
  have "List.map_filter check_provider ps
      = List.map_filter check_provider pre @ (provider_value n, h)
          # List.map_filter check_provider post"
    by (simp add: ps map_filter_def check_provider_recorded h)
  then have "map_of (rev (List.map_filter check_provider ps)) (provider_value n)
      = (map_of (rev (List.map_filter check_provider pre)) ++ [provider_value n \<mapsto> h]
          ++ map_of (rev (List.map_filter check_provider post))) (provider_value n)"
    by simp
  also have "\<dots> = Some h"
    using writes_of_raising [OF post] by (simp add: map_add_def)
  finally show ?thesis
    by (simp add: health_check_map_of h)
qed

lemma distinct_health_check: "distinct (map fst (health_check ps))"
proof -
  let ?step = "\<lambda>results check. case check of
                               None \<Rightarrow> results
                             | Some (n, healthy) \<Rightarrow> AList.update n healthy results"
  have "distinct (map fst acc) \<Longrightarrow> distinct (map fst (foldl ?step acc checks))"
    for acc :: "(string \<times> bool) list" and checks
  proof (induction checks arbitrary: acc)
    case Nil
    then show ?case by simp
  next
    case (Cons c checks)
    show ?case
    proof (cases c)
      case None
      with Cons show ?thesis by simp
    next
      case (Some nh)
      obtain n h where nh: "nh = (n, h)" by (cases nh)
      have "distinct (map fst (AList.update n h acc))"
        using Cons.prems by (rule distinct_update)
      from Cons.IH [OF this] Some nh show ?thesis by simp
    qed
  qed
  from this [of "[]"] show ?thesis
    by (simp add: health_check_def)
qed

text \<open>
  C6, as the code has it. The probes are awaited together, each under the timeout; what
  each comes to (an answer, a timeout, an exception) decides the map, which is filled in
  the order of the providers under the providers' names. A probe that answers writes its
  answer, a probe that times out writes false, a probe that raises writes nothing, and a
  later write under the same name replaces an earlier one: a name maps to what the last
  probe of that name that did not raise wrote, and is absent when all of them raised.
  When the providers' names are pairwise distinct, each probe is recorded as it ended.
  The status is \<open>healthy\<close> if some name maps to true and \<open>degraded\<close> otherwise.
\<close>

theorem health_check_records:
  "(\<forall>pre n pr post.
      ps = pre @ (n, pr) # post \<and> pr \<noteq> Raises \<and> (\<forall>q. (n, q) \<in> set post \<longrightarrow> q = Raises)
        \<longrightarrow> map_of (health_check ps) (provider_value n) = recorded pr)
   \<and> (\<forall>n. (\<forall>q. (n, q) \<in> set ps \<longrightarrow> q = Raises)
        \<longrightarrow> map_of (health_check ps) (provider_value n) = None)
   \<and> (distinct (map fst ps) \<longrightarrow>
        (\<forall>(n, pr) \<in> set ps. map_of (health_check ps) (provider_value n) = recorded pr))
   \<and> health_status (health_check ps)
       = (if \<exists>k. map_of (health_check ps) k = Some True then ''healthy'' else ''degraded'')"
proof -
  have 1: "map_of (health_check ps) (provider_value n) = recorded pr"
    if "ps = pre @ (n, pr) # post \<and> pr \<noteq> Raises \<and> (\<forall>q. (n, q) \<in> set post \<longrightarrow> q = Raises)"
    for pre n pr post
    using that last_write_wins by blast
  have 2: "map_of (health_check ps) (provider_value n) = None"
    if "\<forall>q. (n, q) \<in> set ps \<longrightarrow> q = Raises" for n
    using writes_of_raising [OF that] by (simp add: health_check_map_of)
  have 3: "map_of (health_check ps) (provider_value n) = recorded pr"
    if d: "distinct (map fst ps)" and mem: "(n, pr) \<in> set ps" for n pr
  proof -
    from mem obtain pre post where split: "ps = pre @ (n, pr) # post"
      by (meson split_list)
    from d have "distinct (map fst pre @ n # map fst post)"
      by (simp add: split)
    then have alone: "n \<notin> fst ` set pre" "n \<notin> fst ` set post"
      by simp_all
    show ?thesis
    proof (cases "pr = Raises")
      case True
      have "q = Raises" if "(n, q) \<in> set ps" for q
      proof -
        from that have "(n, q) \<in> set (pre @ (n, pr) # post)"
          by (simp only: split)
        then have "(n, q) \<in> set pre \<or> q = pr \<or> (n, q) \<in> set post"
          by auto
        moreover have "(n, q) \<notin> set pre" "(n, q) \<notin> set post"
          using alone by (force+)
        ultimately show ?thesis using True by blast
      qed
      then have "map_of (health_check ps) (provider_value n) = None"
        using 2 by blast
      with True show ?thesis by simp
    next
      case False
      have "\<forall>q. (n, q) \<in> set post \<longrightarrow> q = Raises"
        using alone(2) by force
      with split False show ?thesis
        by (rule last_write_wins)
    qed
  qed
  have "(\<exists>k. map_of (health_check ps) k = Some True) \<longleftrightarrow> (\<exists>k. (k, True) \<in> set (health_check ps))"
    using distinct_health_check [of ps] by simp
  then have 4: "health_status (health_check ps)
       = (if \<exists>k. map_of (health_check ps) k = Some True then ''healthy'' else ''degraded'')"
    using health_status_healthy [of "health_check ps"]
      health_status_degraded [of "health_check ps"] by auto
  from 1 2 3 4 show ?thesis by blast
qed

theorem health_check_records_witness:
  "distinct (map fst [(GROQ, Answers True), (GEMINI, Times_out), (OPENAI, Raises)])
   \<and> map_of (health_check [(GROQ, Answers True), (GEMINI, Times_out), (OPENAI, Raises)])
        ''groq'' = Some True
   \<and> map_of (health_check [(GROQ, Answers True), (GEMINI, Times_out), (OPENAI, Raises)])
        ''gemini'' = Some False
   \<and> map_of (health_check [(GROQ, Answers True), (GEMINI, Times_out), (OPENAI, Raises)])
        ''openai'' = None
   \<and> health_status (health_check [(GROQ, Answers True), (GEMINI, Times_out), (OPENAI, Raises)])
        = ''healthy''
   \<and> map_of (health_check [(GROQ, Times_out), (GROQ, Answers True)]) ''groq'' = Some True"
proof -
  let ?ps = "[(GROQ, Answers True), (GEMINI, Times_out), (OPENAI, Raises)]"
  note th = health_check_records [of ?ps]
  have d: "distinct (map fst ?ps)" by simp
  from th d have each: "\<forall>(n, pr) \<in> set ?ps.
      map_of (health_check ?ps) (provider_value n) = recorded pr"
    by blast
  then have g: "map_of (health_check ?ps) ''groq'' = Some True"
    and m: "map_of (health_check ?ps) ''gemini'' = Some False"
    and o: "map_of (health_check ?ps) ''openai'' = None"
    by simp_all
  from th have "health_status (health_check ?ps)
      = (if \<exists>k. map_of (health_check ?ps) k = Some True then ''healthy'' else ''degraded'')"
    by blast
  moreover from g have "\<exists>k. map_of (health_check ?ps) k = Some True"
    by blast
  ultimately have s: "health_status (health_check ?ps) = ''healthy''"
    by simp
  have "[(GROQ, Times_out), (GROQ, Answers True)] = [(GROQ, Times_out)] @ (GROQ, Answers True) # []
      \<and> Answers True \<noteq> Raises \<and> (\<forall>q. (GROQ, q) \<in> set [] \<longrightarrow> q = Raises)"
    by simp
  with health_check_records [of "[(GROQ, Times_out), (GROQ, Answers True)]"]
  have "map_of (health_check [(GROQ, Times_out), (GROQ, Answers True)]) (provider_value GROQ)
      = recorded (Answers True)"
    by blast
  then have l: "map_of (health_check [(GROQ, Times_out), (GROQ, Answers True)]) ''groq''
      = Some True"
    by simp
  from d g m o s l show ?thesis by simp
qed

text \<open>
  C6 as stated fails when two providers share a name, as the two Groq clients built from
  the order \<open>groq,groq\<close> do: the first probe times out, the second answers, and the map
  holds true under the name, so the timeout is not recorded as false; likewise a probe
  that raises shares the entry of its namesake.
\<close>

theorem health_check_shared_name:
  "health_check [(GROQ, Times_out), (GROQ, Answers True)] = [(''groq'', True)]
   \<and> health_status (health_check [(GROQ, Times_out), (GROQ, Answers True)]) = ''healthy''
   \<and> health_check [(GROQ, Answers False), (GROQ, Raises)] = [(''groq'', False)]"
  by (simp add: health_check_def health_status_def Let_def)

end
